theory Spec2Isabelle
  imports Main "HOL-Library.Sublist" "HOL-Library.Char_ord" "HOL-Library.List_Lexorder"
    "HOL-Library.Product_Lexorder"
begin

section \<open>Message templates: \<open>ReplaceMessage\<close> and \<open>ReplaceVariable\<close>\<close>

text \<open>
  \<open>QString\<close> is modelled as \<open>string\<close>. The class \<open>Song\<close> is declared in
  \<open>core/song.h\<close>; \<open>ReplaceVariable\<close> only reads it through eighteen accessors, so a song
  is the record of what those accessors return, under the accessors' names. The title of a
  song is what \<open>PrettyTitle\<close> returns.
\<close>

record Song =
  PrettyTitle :: string
  album :: string
  artist :: string
  effective_albumartist :: string
  track :: int
  disc :: int
  PrettyYear :: string
  PrettyOriginalYear :: string
  genre :: string
  composer :: string
  performer :: string
  grouping :: string
  PrettyLength :: string
  basefilename :: string
  url :: string
  playcount :: int
  skipcount :: int
  PrettyRating :: string

subsection \<open>The \<open>QString\<close> operations used\<close>

text \<open>\<open>QString::setNum(int)\<close>: the decimal text of a number, with a minus sign below zero.\<close>

definition digit_char :: "nat \<Rightarrow> char" where
  "digit_char d = char_of (48 + d)"

function decimal :: "nat \<Rightarrow> string" where
  "decimal n = (if n < 10 then [digit_char n] else decimal (n div 10) @ [digit_char (n mod 10)])"
  by pat_completeness auto
termination
  by (relation "measure id") auto

declare decimal.simps [simp del]

definition setNum :: "int \<Rightarrow> string" where
  "setNum i = (if i < 0 then CHR ''-'' # decimal (nat (- i)) else decimal (nat i))"

text \<open>\<open>QString::toHtmlEscaped\<close> rewrites exactly four characters.\<close>

definition escape_char :: "char \<Rightarrow> string" where
  "escape_char c =
     (if c = CHR ''<'' then ''&lt;''
      else if c = CHR ''>'' then ''&gt;''
      else if c = CHR ''&'' then ''&amp;''
      else if c = CHR 0x22 then ''&quot;''
      else [c])"

definition toHtmlEscaped :: "string \<Rightarrow> string" where
  "toHtmlEscaped s = concat (map escape_char s)"

text \<open>
  \<open>QString::replace(before, after)\<close> replaces every occurrence of \<open>before\<close>, found from
  left to right without overlap; the text it inserts is not searched again. With an empty
  \<open>before\<close> Qt inserts \<open>after\<close> at every position. The two arguments are \<open>bef\<close> and
  \<open>aft\<close> below.
\<close>

definition startsWith :: "string \<Rightarrow> string \<Rightarrow> bool" where
  "startsWith s b = (take (length b) s = b)"

function replace :: "string \<Rightarrow> string \<Rightarrow> string \<Rightarrow> string" where
  "replace s bef aft =
     (if bef = [] then aft @ concat (map (\<lambda>c. c # aft) s)
      else if s = [] then []
      else if startsWith s bef then aft @ replace (drop (length bef) s) bef aft
      else hd s # replace (tl s) bef aft)"
  by pat_completeness auto
termination
  by (relation "measure (\<lambda>(s, bef, aft). length s)") auto

declare replace.simps [simp del]

text \<open>\<open>QString::remove(position, n)\<close>.\<close>

definition remove :: "string \<Rightarrow> nat \<Rightarrow> nat \<Rightarrow> string" where
  "remove s i n = take i s @ drop (i + n) s"

subsection \<open>The two regular expressions\<close>

text \<open>
  \<open>[%][a-z]+[%]\<close>. \<open>match_here s\<close> is the length of the match that starts at the head of
  \<open>s\<close>: a percent sign, the longest run of lower-case letters, which must not be empty, and
  a percent sign right after it (a shorter run would be followed by a letter).
\<close>

definition lower :: "char \<Rightarrow> bool" where
  "lower c = (c \<in> set ''abcdefghijklmnopqrstuvwxyz'')"

definition match_here :: "string \<Rightarrow> nat option" where
  "match_here s =
     (case s of
        [] \<Rightarrow> None
      | c # r \<Rightarrow>
          if c = CHR ''%'' then
            (let n = length (takeWhile lower r) in
             if 0 < n \<and> (case drop n r of [] \<Rightarrow> False | d # _ \<Rightarrow> d = CHR ''%'')
             then Some (n + 2) else None)
          else None)"

text \<open>
  \<open>variable_replacer.match(message, pos)\<close>: the leftmost match that starts at offset \<open>pos\<close>
  or later, as (capturedStart, capturedLength).
\<close>

function regex_match :: "string \<Rightarrow> nat \<Rightarrow> (nat \<times> nat) option" where
  "regex_match message pos =
     (if length message \<le> pos then None
      else case match_here (drop pos message) of
             Some n \<Rightarrow> Some (pos, n)
           | None \<Rightarrow> regex_match message (Suc pos))"
  by pat_completeness auto
termination
  by (relation "measure (\<lambda>(message, pos). length message - pos)") auto

declare regex_match.simps [simp del]

text \<open>
  \<open>" - (>|$)"\<close>. Qt compiles patterns with PCRE2 and sets no option that changes the
  dollar, so \<open>$\<close> holds at the very end of the subject and also just before a line feed
  that is its last character.
\<close>

definition dollar :: "string \<Rightarrow> bool" where
  "dollar rest = (rest = [] \<or> rest = [CHR 0x0A])"

definition dash_here :: "string \<Rightarrow> bool" where
  "dash_here s =
     (startsWith s '' - '' \<and>
      (case drop 3 s of [] \<Rightarrow> dollar [] | c # r \<Rightarrow> c = CHR ''>'' \<or> dollar (c # r)))"

text \<open>\<open>QString::indexOf(QRegularExpression)\<close>: the first index with a match, \<open>None\<close> for -1.\<close>

fun indexOf :: "string \<Rightarrow> nat option" where
  "indexOf [] = None"
| "indexOf (c # cs) =
     (if dash_here (c # cs) then Some 0 else map_option Suc (indexOf cs))"

subsection \<open>\<open>ReplaceVariable\<close>\<close>

text \<open>
  The chain of comparisons in the source's order. Every branch but \<open>%newline%\<close> falls
  through to the escaping at the end of the function; \<open>%newline%\<close> returns at once.
\<close>

definition ReplaceVariable :: "string \<Rightarrow> Song \<Rightarrow> string \<Rightarrow> bool \<Rightarrow> string" where
  "ReplaceVariable variable song newline html_escaped =
     (let escaped = (\<lambda>txt. if html_escaped then toHtmlEscaped txt else txt) in
      if variable = ''%title%'' then escaped (PrettyTitle song)
      else if variable = ''%album%'' then escaped (album song)
      else if variable = ''%artist%'' then escaped (artist song)
      else if variable = ''%albumartist%'' then escaped (effective_albumartist song)
      else if variable = ''%track%'' then escaped (setNum (track song))
      else if variable = ''%disc%'' then escaped (setNum (disc song))
      else if variable = ''%year%'' then escaped (PrettyYear song)
      else if variable = ''%originalyear%'' then escaped (PrettyOriginalYear song)
      else if variable = ''%genre%'' then escaped (genre song)
      else if variable = ''%composer%'' then escaped (composer song)
      else if variable = ''%performer%'' then escaped (performer song)
      else if variable = ''%grouping%'' then escaped (grouping song)
      else if variable = ''%length%'' then escaped (PrettyLength song)
      else if variable = ''%filename%'' then escaped (basefilename song)
      else if variable = ''%url%'' then escaped (url song)
      else if variable = ''%playcount%'' then escaped (setNum (playcount song))
      else if variable = ''%skipcount%'' then escaped (setNum (skipcount song))
      else if variable = ''%rating%'' then escaped (PrettyRating song)
      else if variable = ''%newline%'' then newline
      else escaped variable)"

subsection \<open>\<open>ReplaceMessage\<close>\<close>

text \<open>A match of the token pattern starts at or after the offset and is not empty.\<close>

lemma match_here_pos: "match_here s = Some n \<Longrightarrow> 3 \<le> n \<and> n \<le> length s"
proof -
  assume m: "match_here s = Some n"
  then obtain c r where s: "s = c # r" by (cases s) (auto simp: match_here_def)
  define k where "k = length (takeWhile lower r)"
  from m s have k: "0 < k" "drop k r \<noteq> []" "n = k + 2"
    by (auto simp: match_here_def k_def Let_def split: if_splits list.splits)
  from k(2) have "k < length r" by simp
  with k s show ?thesis by simp
qed

lemma regex_match_bounds:
  "regex_match message pos = Some (start, len) \<Longrightarrow>
     pos \<le> start \<and> 3 \<le> len \<and> start + len \<le> length message"
proof (induction message pos rule: regex_match.induct)
  case (1 message pos)
  show ?case
  proof (cases "match_here (drop pos message)")
    case None
    with "1.prems" have lt: "\<not> length message \<le> pos"
      and r: "regex_match message (Suc pos) = Some (start, len)"
      by (auto simp: regex_match.simps [of message pos] split: if_splits)
    from "1.IH" [OF lt None r] show ?thesis by simp
  next
    case (Some n)
    with "1.prems" have "start = pos" "len = n" "\<not> length message \<le> pos"
      by (auto simp: regex_match.simps [of message pos] split: if_splits)
    with match_here_pos [OF Some] show ?thesis by auto
  qed
qed

text \<open>
  The \<open>for\<close> loop. Its state is the offset \<open>pos\<close> and the working string \<open>copy\<close>;
  the pattern is always matched against \<open>message\<close>, the replacement is always made in
  \<open>copy\<close>, and \<open>captured[0]\<close> is the matched text.
\<close>

function replace_loop :: "string \<Rightarrow> Song \<Rightarrow> string \<Rightarrow> bool \<Rightarrow> nat \<Rightarrow> string \<Rightarrow> string" where
  "replace_loop message song newline html_escaped pos copy =
     (case regex_match message pos of
        None \<Rightarrow> copy
      | Some (start, len) \<Rightarrow>
          (let captured = take len (drop start message) in
           replace_loop message song newline html_escaped (start + len)
             (replace copy captured (ReplaceVariable captured song newline html_escaped))))"
  by pat_completeness auto
termination
proof (relation "measure (\<lambda>(message, song, newline, html_escaped, pos, copy). length message - pos)")
  show "wf (measure (\<lambda>(message, song, newline, html_escaped, pos, copy). length message - pos))"
    by simp
next
  fix message :: string and song :: Song and newline :: string and html_escaped :: bool
    and pos :: nat and copy :: string and x2 :: "nat \<times> nat" and start len :: nat and captured :: string
  assume "regex_match message pos = Some x2" "(start, len) = x2"
  then have "regex_match message pos = Some (start, len)" by simp
  from regex_match_bounds [OF this]
  show "((message, song, newline, html_escaped, start + len,
          replace copy captured (ReplaceVariable captured song newline html_escaped)),
         (message, song, newline, html_escaped, pos, copy))
        \<in> measure (\<lambda>(message, song, newline, html_escaped, pos, copy). length message - pos)"
    by auto
qed

declare replace_loop.simps [simp del]

definition ReplaceMessage :: "string \<Rightarrow> Song \<Rightarrow> string \<Rightarrow> bool \<Rightarrow> string" where
  "ReplaceMessage message song newline html_escaped =
     (let copy = replace_loop message song newline html_escaped 0 message in
      case indexOf copy of
        None \<Rightarrow> copy
      | Some index_of \<Rightarrow> remove copy index_of 3)"

text \<open>The last two statements of \<open>ReplaceMessage\<close>, as a function of the working string.\<close>

definition remove_dash :: "string \<Rightarrow> string" where
  "remove_dash copy = (case indexOf copy of None \<Rightarrow> copy | Some index_of \<Rightarrow> remove copy index_of 3)"

subsection \<open>The scan, apart from the replacements\<close>

text \<open>
  The matches that the loop finds depend on \<open>message\<close> alone: \<open>matches message pos\<close>
  lists them, as (capturedStart, capturedLength), from the offset \<open>pos\<close> on.
\<close>

function matches :: "string \<Rightarrow> nat \<Rightarrow> (nat \<times> nat) list" where
  "matches message pos =
     (case regex_match message pos of
        None \<Rightarrow> []
      | Some (start, len) \<Rightarrow> (start, len) # matches message (start + len))"
  by pat_completeness auto
termination
proof (relation "measure (\<lambda>(message, pos). length message - pos)")
  show "wf (measure (\<lambda>(message, pos). length message - pos))" by simp
next
  fix message :: string and pos :: nat and x2 :: "nat \<times> nat" and start len :: nat
  assume "regex_match message pos = Some x2" "(start, len) = x2"
  then have "regex_match message pos = Some (start, len)" by simp
  from regex_match_bounds [OF this]
  show "((message, start + len), (message, pos)) \<in> measure (\<lambda>(message, pos). length message - pos)"
    by auto
qed

declare matches.simps [simp del]

text \<open>\<open>captured[0]\<close> of a match, and one turn of the loop on the working string.\<close>

definition capturedText :: "string \<Rightarrow> nat \<times> nat \<Rightarrow> string" where
  "capturedText message m = take (snd m) (drop (fst m) message)"

definition substitute :: "Song \<Rightarrow> string \<Rightarrow> bool \<Rightarrow> string \<Rightarrow> string \<Rightarrow> string" where
  "substitute song newline html_escaped copy variable =
     replace copy variable (ReplaceVariable variable song newline html_escaped)"

text \<open>A string that is one match of the pattern from its first to its last character.\<close>

definition whole_token :: "string \<Rightarrow> bool" where
  "whole_token variable = (match_here variable = Some (length variable))"

text \<open>The variables that \<open>ReplaceVariable\<close> compares with, in its order.\<close>

definition dispatch_table :: "string list" where
  "dispatch_table =
     [''%title%'', ''%album%'', ''%artist%'', ''%albumartist%'', ''%track%'', ''%disc%'',
      ''%year%'', ''%originalyear%'', ''%genre%'', ''%composer%'', ''%performer%'',
      ''%grouping%'', ''%length%'', ''%filename%'', ''%url%'', ''%playcount%'',
      ''%skipcount%'', ''%rating%'', ''%newline%'']"

text \<open>
  A separator that the last step of \<open>ReplaceMessage\<close> removes: the three characters at
  offset \<open>i\<close> are a space, a hyphen and a space, and what follows is nothing, a single line
  feed that ends the string, or text that starts with \<open>>\<close>.
\<close>

definition dangling :: "string \<Rightarrow> nat \<Rightarrow> bool" where
  "dangling copy i =
     (take 3 (drop i copy) = '' - '' \<and>
      (drop (i + 3) copy = [] \<or> drop (i + 3) copy = ''\<newline>'' \<or>
       take 1 (drop (i + 3) copy) = ''>''))"

text \<open>A song for the examples: the title is \<open>Song\<close>, every other text is empty.\<close>

definition example_song :: Song where
  "example_song =
     \<lparr>PrettyTitle = ''Song'', album = [], artist = [], effective_albumartist = [], track = 0,
      disc = 0, PrettyYear = [], PrettyOriginalYear = [], genre = [], composer = [],
      performer = [], grouping = [], PrettyLength = [], basefilename = [], url = [],
      playcount = 0, skipcount = 0, PrettyRating = []\<rparr>"

subsection \<open>The specification's reading, for comparison\<close>

text \<open>
  The specification describes one pass over the message: the text between two matches is
  copied, each match is replaced by its value, and a value is never looked at again.
\<close>

function spec_one_pass :: "string \<Rightarrow> Song \<Rightarrow> string \<Rightarrow> bool \<Rightarrow> nat \<Rightarrow> string" where
  "spec_one_pass message song newline html_escaped pos =
     (case regex_match message pos of
        None \<Rightarrow> drop pos message
      | Some (start, len) \<Rightarrow>
          take (start - pos) (drop pos message) @
          ReplaceVariable (take len (drop start message)) song newline html_escaped @
          spec_one_pass message song newline html_escaped (start + len))"
  by pat_completeness auto
termination
proof (relation "measure (\<lambda>(message, song, newline, html_escaped, pos). length message - pos)")
  show "wf (measure (\<lambda>(message, song, newline, html_escaped, pos). length message - pos))"
    by simp
next
  fix message :: string and song :: Song and newline :: string and html_escaped :: bool
    and pos :: nat and x2 :: "nat \<times> nat" and start len :: nat
  assume "regex_match message pos = Some x2" "(start, len) = x2"
  then have "regex_match message pos = Some (start, len)" by simp
  from regex_match_bounds [OF this]
  show "((message, song, newline, html_escaped, start + len),
         (message, song, newline, html_escaped, pos))
        \<in> measure (\<lambda>(message, song, newline, html_escaped, pos). length message - pos)"
    by auto
qed

text \<open>
  The specification's last step looks for a separator followed by \<open>>\<close> or by the end of
  the string, and removes the first one.
\<close>

definition spec_dangling :: "string \<Rightarrow> nat \<Rightarrow> bool" where
  "spec_dangling copy i =
     (take 3 (drop i copy) = '' - '' \<and>
      (drop (i + 3) copy = [] \<or> take 1 (drop (i + 3) copy) = ''>''))"

definition spec_remove_dash :: "string \<Rightarrow> string" where
  "spec_remove_dash copy =
     (case find (spec_dangling copy) [0..<length copy] of
        None \<Rightarrow> copy
      | Some i \<Rightarrow> take i copy @ drop (i + 3) copy)"

subsection \<open>Facts about the scan\<close>

lemma ReplaceMessage_alt:
  "ReplaceMessage message song newline html_escaped =
     remove_dash (replace_loop message song newline html_escaped 0 message)"
  by (simp add: ReplaceMessage_def remove_dash_def Let_def)

lemma match_here_drop_Nil [simp]: "match_here [] = None"
  by (simp add: match_here_def)

lemma regex_match_Some:
  "regex_match message pos = Some (start, len) \<Longrightarrow>
     match_here (drop start message) = Some len \<and>
     (\<forall>i. pos \<le> i \<and> i < start \<longrightarrow> match_here (drop i message) = None)"
proof (induction message pos rule: regex_match.induct)
  case (1 message pos)
  show ?case
  proof (cases "match_here (drop pos message)")
    case None
    with "1.prems" have lt: "\<not> length message \<le> pos"
      and r: "regex_match message (Suc pos) = Some (start, len)"
      by (auto simp: regex_match.simps [of message pos] split: if_splits)
    from "1.IH" [OF lt None r] None show ?thesis
      by (metis Suc_leI le_neq_implies_less)
  next
    case (Some n)
    with "1.prems" have "start = pos" "len = n"
      by (auto simp: regex_match.simps [of message pos] split: if_splits)
    with Some show ?thesis by simp
  qed
qed


lemma replace_loop_foldl:
  "replace_loop message song newline html_escaped pos copy =
     foldl (substitute song newline html_escaped) copy (map (capturedText message) (matches message pos))"
proof (induction message song newline html_escaped pos copy rule: replace_loop.induct)
  case (1 message song newline html_escaped pos copy)
  show ?case
  proof (cases "regex_match message pos")
    case None
    then show ?thesis
      by (simp add: replace_loop.simps [of message song newline html_escaped pos copy]
          matches.simps [of message pos])
  next
    case (Some m)
    obtain start len where m: "m = (start, len)" by (cases m)
    from "1.IH" [OF Some m [symmetric] refl] Some m show ?thesis
      by (simp add: replace_loop.simps [of message song newline html_escaped pos copy]
          matches.simps [of message pos] capturedText_def substitute_def Let_def)
  qed
qed

lemma matches_tokens:
  "(start, len) \<in> set (matches message pos) \<Longrightarrow>
     pos \<le> start \<and> match_here (drop start message) = Some len"
proof (induction message pos rule: matches.induct)
  case (1 message pos)
  show ?case
  proof (cases "regex_match message pos")
    case None
    with "1.prems" show ?thesis by (simp add: matches.simps [of message pos])
  next
    case (Some m)
    obtain s l where m: "m = (s, l)" by (cases m)
    from "1.prems" Some m have "(start, len) = (s, l) \<or> (start, len) \<in> set (matches message (s + l))"
      by (simp add: matches.simps [of message pos])
    then show ?thesis
    proof
      assume "(start, len) = (s, l)"
      with regex_match_Some [of message pos s l] regex_match_bounds [of message pos s l] Some m
      show ?thesis by simp
    next
      assume "(start, len) \<in> set (matches message (s + l))"
      from "1.IH" [OF Some m [symmetric] this] regex_match_bounds [of message pos s l] Some m
      show ?thesis by simp
    qed
  qed
qed



subsection \<open>Facts about the pattern and about \<open>replace\<close>\<close>

lemma match_here_no_percent: "s = c # r \<Longrightarrow> c \<noteq> CHR ''%'' \<Longrightarrow> match_here s = None"
  by (simp add: match_here_def)

lemma match_here_percent_free: "CHR ''%'' \<notin> set s \<Longrightarrow> match_here s = None"
  by (cases s) (auto simp: match_here_def)

lemma regex_match_NoneI:
  "(\<And>i. pos \<le> i \<Longrightarrow> match_here (drop i message) = None) \<Longrightarrow> regex_match message pos = None"
proof (induction message pos rule: regex_match.induct)
  case (1 message pos)
  show ?case
  proof (cases "length message \<le> pos")
    case True
    then show ?thesis by (simp add: regex_match.simps [of message pos])
  next
    case False
    have n: "match_here (drop pos message) = None" using "1.prems" by simp
    have "regex_match message (Suc pos) = None"
      using "1.IH" [OF False n] "1.prems" by simp
    with False n show ?thesis by (simp add: regex_match.simps [of message pos])
  qed
qed

lemma regex_match_skip:
  "CHR ''%'' \<notin> set pre \<Longrightarrow> match_here rest = Some n \<Longrightarrow> pos \<le> length pre \<Longrightarrow>
     regex_match (pre @ rest) pos = Some (length pre, n)"
proof (induction "length pre - pos" arbitrary: pos)
  case 0
  then have "pos = length pre" by simp
  moreover from "0.prems"(2) have "rest \<noteq> []" by (auto simp: match_here_def)
  ultimately show ?case using "0.prems"(2)
    by (simp add: regex_match.simps [of "pre @ rest" "length pre"])
next
  case (Suc k)
  then have lt: "pos < length pre" by simp
  then have "drop pos (pre @ rest) = pre ! pos # drop (Suc pos) pre @ rest"
    by (simp add: Cons_nth_drop_Suc)
  moreover from lt Suc.prems(1) have "pre ! pos \<noteq> CHR ''%''" by (metis nth_mem)
  ultimately have "match_here (drop pos (pre @ rest)) = None"
    by (simp add: match_here_no_percent)
  moreover have "regex_match (pre @ rest) (Suc pos) = Some (length pre, n)"
    using Suc.hyps(1) [of "Suc pos"] Suc.hyps(2) Suc.prems lt by simp
  ultimately show ?case using lt
    by (simp add: regex_match.simps [of "pre @ rest" pos])
qed

lemma whole_token_shape:
  assumes "whole_token variable"
  obtains name where "variable = CHR ''%'' # name @ ''%''" "name \<noteq> []" "\<forall>c \<in> set name. lower c"
proof -
  from assms obtain c r where v: "variable = c # r"
    by (cases variable) (auto simp: whole_token_def match_here_def)
  define n where "n = length (takeWhile lower r)"
  from assms v have c: "c = CHR ''%''" and n: "0 < n"
    and d: "case drop n r of [] \<Rightarrow> False | d # _ \<Rightarrow> d = CHR ''%''" and l: "n + 2 = length variable"
    by (auto simp: whole_token_def match_here_def n_def Let_def split: if_splits)
  from d obtain rest where dr: "drop n r = CHR ''%'' # rest" by (auto split: list.splits)
  from dr have "Suc (length rest) = length r - n" by (metis length_drop length_Cons)
  moreover from l v have "Suc n = length r" by simp
  ultimately have "length rest = 0" by arith
  then have "rest = []" by simp
  have "r = takeWhile lower r @ dropWhile lower r" by simp
  moreover have "dropWhile lower r = drop n r" by (simp add: n_def dropWhile_eq_drop)
  ultimately have "r = takeWhile lower r @ ''%''" using dr \<open>rest = []\<close> by simp
  moreover have "takeWhile lower r \<noteq> []" using n by (auto simp: n_def)
  moreover have "\<forall>c \<in> set (takeWhile lower r). lower c" by (auto dest: set_takeWhileD)
  ultimately show thesis using that v c by blast
qed

lemma match_here_append:
  assumes "whole_token variable"
  shows "match_here (variable @ post) = Some (length variable)"
proof -
  from assms obtain name where v: "variable = CHR ''%'' # name @ ''%''" and ne: "name \<noteq> []"
    and lo: "\<forall>c \<in> set name. lower c" by (rule whole_token_shape)
  have np: "\<not> lower CHR ''%''" by (simp add: lower_def)
  have "takeWhile lower (name @ CHR ''%'' # post) = name"
    using lo np by (simp add: takeWhile_append2)
  then show ?thesis using v ne by (simp add: match_here_def)
qed

lemma replace_Nil: "bef \<noteq> [] \<Longrightarrow> replace [] bef aft = []"
  by (subst replace.simps) simp

lemma replace_skip:
  "bef \<noteq> [] \<Longrightarrow> \<not> startsWith (c # s) bef \<Longrightarrow> replace (c # s) bef aft = c # replace s bef aft"
  by (subst replace.simps) simp

lemma replace_hit: "bef \<noteq> [] \<Longrightarrow> replace (bef @ s) bef aft = aft @ replace s bef aft"
  by (subst replace.simps) (simp add: startsWith_def)

lemma replace_percent_free:
  "bef = CHR ''%'' # b \<Longrightarrow> CHR ''%'' \<notin> set s \<Longrightarrow> replace s bef aft = s"
proof (induction s)
  case Nil
  then show ?case by (simp add: replace_Nil)
next
  case (Cons c s)
  then have "\<not> startsWith (c # s) bef" by (auto simp: startsWith_def)
  with Cons show ?case by (simp add: replace_skip)
qed

lemma replace_single:
  assumes "bef = CHR ''%'' # b" "CHR ''%'' \<notin> set pre" "CHR ''%'' \<notin> set post"
  shows "replace (pre @ bef @ post) bef aft = pre @ aft @ post"
  using assms(2)
proof (induction pre)
  case Nil
  from assms(1) have "bef \<noteq> []" by simp
  from replace_hit [OF this] replace_percent_free [OF assms(1,3)] show ?case by simp
next
  case (Cons c pre)
  from assms(1) have ne: "bef \<noteq> []" by simp
  from Cons.prems assms(1) have "\<not> startsWith (c # pre @ bef @ post) bef"
    by (auto simp: startsWith_def)
  from replace_skip [OF ne this] Cons show ?case by simp
qed

lemma replace_loop_single:
  assumes "whole_token variable" "CHR ''%'' \<notin> set pre" "CHR ''%'' \<notin> set post"
  shows "replace_loop (pre @ variable @ post) song newline html_escaped 0 (pre @ variable @ post) =
           pre @ ReplaceVariable variable song newline html_escaped @ post"
proof -
  let ?m = "pre @ variable @ post"
  from assms(1) obtain name where v: "variable = CHR ''%'' # name @ ''%''"
    by (rule whole_token_shape)
  have r0: "regex_match ?m 0 = Some (length pre, length variable)"
    using regex_match_skip [OF assms(2) match_here_append [OF assms(1)], of 0 post] by simp
  have r1: "regex_match ?m (length pre + length variable) = None"
  proof (rule regex_match_NoneI)
    fix i assume "length pre + length variable \<le> i"
    then have "drop i ?m = drop (i - length pre - length variable) post" by simp
    moreover have "CHR ''%'' \<notin> set (drop (i - length pre - length variable) post)"
      using assms(3) by (meson in_set_dropD)
    ultimately show "match_here (drop i ?m) = None" by (simp add: match_here_percent_free)
  qed
  have c: "take (length variable) (drop (length pre) ?m) = variable" by simp
  show ?thesis
    using r0 r1 c replace_single [OF v assms(2,3)]
    by (simp add: replace_loop.simps [of ?m song newline html_escaped 0]
        replace_loop.simps [of ?m song newline html_escaped "length pre + length variable"])
qed

lemma toHtmlEscaped_append: "toHtmlEscaped (a @ b) = toHtmlEscaped a @ toHtmlEscaped b"
  by (simp add: toHtmlEscaped_def)

lemma toHtmlEscaped_plain:
  "CHR ''<'' \<notin> set s \<Longrightarrow> CHR ''>'' \<notin> set s \<Longrightarrow> CHR ''&'' \<notin> set s \<Longrightarrow> CHR 0x22 \<notin> set s \<Longrightarrow>
     toHtmlEscaped s = s"
  by (induction s) (auto simp: toHtmlEscaped_def escape_char_def)

lemma lower_not_special:
  "lower c \<Longrightarrow> c \<noteq> CHR ''<'' \<and> c \<noteq> CHR ''>'' \<and> c \<noteq> CHR ''&'' \<and> c \<noteq> CHR 0x22 \<and> c \<noteq> CHR ''%''"
  by (auto simp: lower_def)

lemma toHtmlEscaped_token: "whole_token variable \<Longrightarrow> toHtmlEscaped variable = variable"
proof -
  assume "whole_token variable"
  then obtain name where v: "variable = CHR ''%'' # name @ ''%''" and lo: "\<forall>c \<in> set name. lower c"
    by (rule whole_token_shape)
  from lo have "toHtmlEscaped name = name"
    by (intro toHtmlEscaped_plain) (auto dest: lower_not_special)
  then show ?thesis
    by (simp add: v toHtmlEscaped_append) (simp add: toHtmlEscaped_def escape_char_def)
qed

lemma ReplaceVariable_unknown:
  "variable \<notin> set dispatch_table \<Longrightarrow>
     ReplaceVariable variable song newline html_escaped =
       (if html_escaped then toHtmlEscaped variable else variable)"
  by (simp add: dispatch_table_def ReplaceVariable_def)

lemma ReplaceVariable_escaped:
  "variable \<noteq> ''%newline%'' \<Longrightarrow>
     ReplaceVariable variable song newline True =
       toHtmlEscaped (ReplaceVariable variable song newline False)"
  by (simp add: ReplaceVariable_def)

lemma ReplaceVariable_newline: "ReplaceVariable ''%newline%'' song newline html_escaped = newline"
  by (simp add: ReplaceVariable_def)

lemma whole_token_newline: "whole_token ''%newline%''"
  by (simp add: whole_token_def match_here_def lower_def)

lemma replace_same_aux: "aft = bef \<Longrightarrow> bef \<noteq> [] \<Longrightarrow> replace s bef aft = s"
proof (induction s bef aft rule: replace.induct)
  case (1 s bef aft)
  note ne = \<open>bef \<noteq> []\<close>
  show ?case
  proof (cases "s = []")
    case True
    with ne show ?thesis by (simp add: replace_Nil)
  next
    case False
    show ?thesis
    proof (cases "startsWith s bef")
      case True
      then have s: "s = bef @ drop (length bef) s"
        by (metis append_take_drop_id startsWith_def)
      from "1.IH"(1) [OF ne False True "1.prems"]
      have "replace (drop (length bef) s) bef aft = drop (length bef) s" .
      with replace_hit [OF ne, of "drop (length bef) s" aft] s "1.prems"(1) show ?thesis by simp
    next
      case no: False
      from False obtain c cs where s: "s = c # cs" by (cases s) auto
      from "1.IH"(2) [OF ne False no "1.prems"] s
      have "replace cs bef aft = cs" by simp
      with replace_skip [OF ne, of c cs aft] no s show ?thesis by simp
    qed
  qed
qed

lemma replace_same: "bef \<noteq> [] \<Longrightarrow> replace s bef bef = s"
  by (rule replace_same_aux) simp_all

lemma match_here_shape:
  assumes "match_here s = Some n"
  obtains name rest where "s = CHR ''%'' # name @ CHR ''%'' # rest" "name \<noteq> []"
    "\<forall>c \<in> set name. lower c" "n = length name + 2"
proof -
  from assms obtain c r where s: "s = c # r" by (cases s) (auto simp: match_here_def)
  define k where "k = length (takeWhile lower r)"
  from assms s have c: "c = CHR ''%''" and k: "0 < k"
    and d: "case drop k r of [] \<Rightarrow> False | d # _ \<Rightarrow> d = CHR ''%''" and n: "n = k + 2"
    by (auto simp: match_here_def k_def Let_def split: if_splits)
  from d obtain rest where dr: "drop k r = CHR ''%'' # rest" by (auto split: list.splits)
  have "r = takeWhile lower r @ dropWhile lower r" by simp
  moreover have "dropWhile lower r = drop k r" by (simp add: k_def dropWhile_eq_drop)
  ultimately have "r = takeWhile lower r @ CHR ''%'' # rest" using dr by simp
  moreover have "takeWhile lower r \<noteq> []" using k by (auto simp: k_def)
  moreover have "\<forall>c \<in> set (takeWhile lower r). lower c" by (auto dest: set_takeWhileD)
  ultimately show thesis using that [of "takeWhile lower r" rest] s c n k_def by simp
qed

lemma match_here_token:
  assumes "name \<noteq> []" "\<forall>c \<in> set name. lower c"
  shows "match_here (CHR ''%'' # name @ CHR ''%'' # rest) = Some (length name + 2)"
proof -
  have "\<not> lower CHR ''%''" by (simp add: lower_def)
  with assms(2) have "takeWhile lower (name @ CHR ''%'' # rest) = name"
    by (simp add: takeWhile_append2)
  with assms(1) show ?thesis by (simp add: match_here_def)
qed

lemma captured_whole_token:
  assumes "match_here (drop start message) = Some len"
  shows "whole_token (take len (drop start message))"
proof -
  from assms obtain name rest where s: "drop start message = CHR ''%'' # name @ CHR ''%'' # rest"
    and ne: "name \<noteq> []" and lo: "\<forall>c \<in> set name. lower c" and n: "len = length name + 2"
    by (rule match_here_shape)
  have "take len (drop start message) = CHR ''%'' # name @ ''%''" by (simp add: s n)
  with match_here_token [OF ne lo, of "[]"] show ?thesis by (simp add: whole_token_def)
qed

lemma unknown_tokens_inert:
  assumes "\<forall>m \<in> set ms. match_here (drop (fst m) message) = Some (snd m) \<and>
             capturedText message m \<notin> set dispatch_table"
  shows "foldl (substitute song newline html_escaped) copy (map (capturedText message) ms) = copy"
  using assms
proof (induction ms arbitrary: copy)
  case Nil
  then show ?case by simp
next
  case (Cons m ms)
  let ?v = "capturedText message m"
  from Cons.prems have w: "whole_token ?v" and u: "?v \<notin> set dispatch_table"
    by (simp_all add: capturedText_def captured_whole_token)
  from w have ne: "?v \<noteq> []" by (auto simp: whole_token_def match_here_def)
  have "ReplaceVariable ?v song newline html_escaped = ?v"
    using ReplaceVariable_unknown [OF u] toHtmlEscaped_token [OF w] by simp
  then have "substitute song newline html_escaped copy ?v = copy"
    by (simp add: substitute_def replace_same [OF ne])
  with Cons show ?case by simp
qed

lemma ReplaceMessage_single:
  assumes "whole_token variable" "CHR ''%'' \<notin> set pre" "CHR ''%'' \<notin> set post"
  shows "ReplaceMessage (pre @ variable @ post) song newline html_escaped =
           remove_dash (pre @ ReplaceVariable variable song newline html_escaped @ post)"
  by (simp add: ReplaceMessage_alt replace_loop_single [OF assms])

lemma remove_dash_none: "\<forall>c \<in> set s. c \<noteq> CHR ''-'' \<Longrightarrow> remove_dash s = s"
proof -
  assume a: "\<forall>c \<in> set s. c \<noteq> CHR ''-''"
  have "indexOf s = None" using a
  proof (induction s)
    case Nil
    then show ?case by simp
  next
    case (Cons c s)
    have "\<not> dash_here (c # s)"
    proof
      assume "dash_here (c # s)"
      then have "take (length '' - '') (c # s) = '' - ''"
        unfolding dash_here_def startsWith_def by (rule conjunct1)
      then have "set '' - '' \<subseteq> set (c # s)" by (metis set_take_subset)
      then have "CHR ''-'' \<in> set (c # s)" by auto
      with Cons.prems show False by blast
    qed
    with Cons show ?case by simp
  qed
  then show ?thesis by (simp add: remove_dash_def)
qed

lemma dash_here_dangling: "dash_here (drop i copy) = dangling copy i"
proof -
  have "drop 3 (drop i copy) = drop (i + 3) copy" by (simp add: add.commute)
  then show ?thesis
    by (cases "drop (i + 3) copy")
      (auto simp: dash_here_def dangling_def startsWith_def dollar_def numeral_3_eq_3)
qed

lemma indexOf_None: "indexOf s = None \<Longrightarrow> \<not> dash_here (drop i s)"
proof (induction s arbitrary: i)
  case Nil
  then show ?case by (simp add: dash_here_def startsWith_def)
next
  case (Cons c s)
  then show ?case by (cases i) (auto split: if_splits)
qed

lemma indexOf_Some:
  "indexOf s = Some i \<Longrightarrow> dash_here (drop i s) \<and> (\<forall>j<i. \<not> dash_here (drop j s))"
proof (induction s arbitrary: i)
  case Nil
  then show ?case by simp
next
  case (Cons c s)
  show ?case
  proof (cases "dash_here (c # s)")
    case True
    with Cons.prems show ?thesis by simp
  next
    case False
    with Cons.prems obtain k where k: "indexOf s = Some k" "i = Suc k" by auto
    from Cons.IH [OF k(1)] False k(2) show ?thesis
      by (auto simp: less_Suc_eq_0_disj)
  qed
qed

section \<open>Properties of the message templates\<close>




text \<open>
  The same happens without any percent sign in the values: an occurrence that is replaced
  can overlap a later match of the message, which is then no longer found in the working
  string. With the title \<open>T\<close> and the artist \<open>X\<close>, the matches of
  \<open>%artist% %title%artist%\<close> are \<open>%artist%\<close> and \<open>%title%\<close>, and the second
  \<open>%artist%\<close> of the working string shares its first character with \<open>%title%\<close>.
\<close>

lemma replaced_text_can_overlap_a_later_match:
  "matches ''%artist% %title%artist%'' 0 = [(0, 8), (9, 7)] \<and>
   ReplaceMessage ''%artist% %title%artist%''
     (example_song\<lparr>PrettyTitle := ''T'', artist := ''X''\<rparr>) ''\<newline>'' False = ''X %titleX'' \<and>
   remove_dash (spec_one_pass ''%artist% %title%artist%''
     (example_song\<lparr>PrettyTitle := ''T'', artist := ''X''\<rparr>) ''\<newline>'' False 0) = ''X Tartist%''"
  by code_simp

text \<open>
  Claim C2. \<open>ReplaceVariable\<close> maps \<open>%newline%\<close> to the newline string of the caller,
  whatever the song and the escaping flag; in a message whose only percent signs are those
  of one \<open>%newline%\<close> the variable is replaced by exactly that string; and the message
  \<open>%newline%\<close> with the newline string \<open><br>\<close> and escaping switched on gives
  \<open><br>\<close>.
\<close>

theorem newline_token_is_not_escaped:
  "ReplaceVariable ''%newline%'' song newline html_escaped = newline \<and>
   (CHR ''%'' \<notin> set pre \<and> CHR ''%'' \<notin> set post \<longrightarrow>
      ReplaceMessage (pre @ ''%newline%'' @ post) song newline html_escaped =
        remove_dash (pre @ newline @ post)) \<and>
   ReplaceMessage ''%newline%'' song ''<br>'' True = ''<br>''"
proof (intro conjI impI)
  show "ReplaceVariable ''%newline%'' song newline html_escaped = newline"
    by (rule ReplaceVariable_newline)
next
  assume "CHR ''%'' \<notin> set pre \<and> CHR ''%'' \<notin> set post"
  then show "ReplaceMessage (pre @ ''%newline%'' @ post) song newline html_escaped =
        remove_dash (pre @ newline @ post)"
    using ReplaceMessage_single [OF whole_token_newline, of pre post song newline html_escaped]
    by (simp add: ReplaceVariable_newline)
next
  have "ReplaceMessage ([] @ ''%newline%'' @ []) song ''<br>'' True = remove_dash ([] @ ''<br>'' @ [])"
    using ReplaceMessage_single [OF whole_token_newline, of "[]" "[]" song "''<br>''" True]
    by (simp only: ReplaceVariable_newline set_simps empty_iff not_False_eq_True)
  then show "ReplaceMessage ''%newline%'' song ''<br>'' True = ''<br>''"
    by (simp add: remove_dash_none)
qed

text \<open>The theorem at the message \<open>one%newline%two\<close>.\<close>

theorem newline_token_is_not_escaped_witness:
  "CHR ''%'' \<notin> set ''one'' \<and> CHR ''%'' \<notin> set ''two'' \<and>
   ReplaceMessage ''one%newline%two'' example_song ''<br>'' True = ''one<br>two''"
proof -
  have "ReplaceMessage (''one'' @ ''%newline%'' @ ''two'') example_song ''<br>'' True =
          remove_dash (''one'' @ ''<br>'' @ ''two'')"
    using newline_token_is_not_escaped [of example_song "''<br>''" True "''one''" "''two''"]
    by simp
  then show ?thesis by (simp add: remove_dash_none)
qed

text \<open>
  Claim C3. \<open>ReplaceMessage\<close> is a total function: \<open>regex_match\<close>, \<open>replace\<close> and
  the loop are defined with their termination proofs, and no branch fails. A variable that
  matches the pattern and is not one of those \<open>ReplaceVariable\<close> knows is mapped to
  itself, with or without escaping; a message in which every match is such a variable
  comes back unchanged but for the last step; and the message \<open>%unknowntoken%\<close> gives
  \<open>%unknowntoken%\<close>.
\<close>

theorem unknown_tokens_stay_literal:
  "(whole_token variable \<and> variable \<notin> set dispatch_table \<longrightarrow>
      ReplaceVariable variable song newline html_escaped = variable) \<and>
   ((\<forall>m \<in> set (matches message 0). capturedText message m \<notin> set dispatch_table) \<longrightarrow>
      ReplaceMessage message song newline html_escaped = remove_dash message) \<and>
   ReplaceMessage ''%unknowntoken%'' song ''\<newline>'' False = ''%unknowntoken%''"
proof (intro conjI impI)
  assume "whole_token variable \<and> variable \<notin> set dispatch_table"
  then show "ReplaceVariable variable song newline html_escaped = variable"
    using ReplaceVariable_unknown [of variable song newline html_escaped]
      toHtmlEscaped_token [of variable] by simp
next
  assume "\<forall>m \<in> set (matches message 0). capturedText message m \<notin> set dispatch_table"
  then have "\<forall>m \<in> set (matches message 0).
      match_here (drop (fst m) message) = Some (snd m) \<and> capturedText message m \<notin> set dispatch_table"
    using matches_tokens [of _ _ message 0] by (metis prod.collapse)
  from unknown_tokens_inert [OF this]
  show "ReplaceMessage message song newline html_escaped = remove_dash message"
    by (simp add: ReplaceMessage_alt replace_loop_foldl)
next
  have w: "whole_token ''%unknowntoken%''"
    by (simp add: whole_token_def match_here_def lower_def)
  have u: "''%unknowntoken%'' \<notin> set dispatch_table" by (simp add: dispatch_table_def)
  have "ReplaceMessage ([] @ ''%unknowntoken%'' @ []) song ''\<newline>'' False =
          remove_dash ([] @ ''%unknowntoken%'' @ [])"
    using ReplaceMessage_single [OF w, of "[]" "[]" song "''\<newline>''" False]
      ReplaceVariable_unknown [OF u, of song "''\<newline>''" False]
    by (simp only: set_simps empty_iff not_False_eq_True if_False)
  then show "ReplaceMessage ''%unknowntoken%'' song ''\<newline>'' False = ''%unknowntoken%''"
    by (simp add: remove_dash_none)
qed

text \<open>The theorem at the unknown variable \<open>%bitrate%\<close>, with escaping switched on.\<close>

theorem unknown_tokens_stay_literal_witness:
  "whole_token ''%bitrate%'' \<and> ''%bitrate%'' \<notin> set dispatch_table \<and>
   ReplaceVariable ''%bitrate%'' example_song ''\<newline>'' True = ''%bitrate%'' \<and>
   matches ''at %bitrate% kbit/s'' 0 = [(3, 9)] \<and>
   ReplaceMessage ''at %bitrate% kbit/s'' example_song ''\<newline>'' True = ''at %bitrate% kbit/s''"
proof -
  have w: "whole_token ''%bitrate%''" by (simp add: whole_token_def match_here_def lower_def)
  have u: "''%bitrate%'' \<notin> set dispatch_table" by (simp add: dispatch_table_def)
  have m: "matches ''at %bitrate% kbit/s'' 0 = [(3, 9)]" by code_simp
  have c: "capturedText ''at %bitrate% kbit/s'' (3, 9) = ''%bitrate%''" by (simp add: capturedText_def)
  note t = unknown_tokens_stay_literal [of "''%bitrate%''" example_song "''\<newline>''" True "''at %bitrate% kbit/s''"]
  from t w u have 1: "ReplaceVariable ''%bitrate%'' example_song ''\<newline>'' True = ''%bitrate%''" by blast
  from t m c u have "ReplaceMessage ''at %bitrate% kbit/s'' example_song ''\<newline>'' True =
      remove_dash ''at %bitrate% kbit/s''" by simp
  then have 2: "ReplaceMessage ''at %bitrate% kbit/s'' example_song ''\<newline>'' True = ''at %bitrate% kbit/s''"
    by (simp add: remove_dash_none)
  from w u 1 m 2 show ?thesis by blast
qed

text \<open>
  Claim C4, as the code has it. Let \<open>copy\<close> be the working string after the loop. If no
  offset of \<open>copy\<close> holds a dangling separator, \<open>ReplaceMessage\<close> returns
  \<open>copy\<close>; otherwise it returns \<open>copy\<close> without the three characters at the first
  such offset, and nothing else is removed, so a \<open>>\<close> that follows stays. A separator
  is dangling when it is followed by \<open>>\<close>, by the end of the string, or by a line feed
  that is the last character of the string: in PCRE2, which Qt uses, \<open>$\<close> also matches
  before a final line feed. With the title \<open>Song\<close> and an empty artist, the message
  \<open>%title% - %artist%\<close> gives \<open>Song\<close>.
\<close>

theorem dangling_separator_removed_once:
  "(let copy = replace_loop message song newline html_escaped 0 message in
      (\<forall>i. \<not> dangling copy i) \<and> ReplaceMessage message song newline html_escaped = copy \<or>
      (\<exists>i. dangling copy i \<and> (\<forall>j<i. \<not> dangling copy j) \<and>
           ReplaceMessage message song newline html_escaped = take i copy @ drop (i + 3) copy)) \<and>
   (PrettyTitle song = ''Song'' \<and> artist song = [] \<longrightarrow>
      ReplaceMessage ''%title% - %artist%'' song ''\<newline>'' False = ''Song'')"
proof
  define copy where "copy = replace_loop message song newline html_escaped 0 message"
  have "(\<forall>i. \<not> dangling copy i) \<and> ReplaceMessage message song newline html_escaped = copy \<or>
      (\<exists>i. dangling copy i \<and> (\<forall>j<i. \<not> dangling copy j) \<and>
           ReplaceMessage message song newline html_escaped = take i copy @ drop (i + 3) copy)"
  proof (cases "indexOf copy")
    case None
    then have "ReplaceMessage message song newline html_escaped = copy"
      by (simp add: ReplaceMessage_alt remove_dash_def copy_def)
    with indexOf_None [OF None] show ?thesis by (simp add: dash_here_dangling)
  next
    case (Some i)
    then have "ReplaceMessage message song newline html_escaped = take i copy @ drop (i + 3) copy"
      by (simp add: ReplaceMessage_alt remove_dash_def copy_def remove_def)
    with indexOf_Some [OF Some] show ?thesis by (auto simp: dash_here_dangling)
  qed
  then show "let copy = replace_loop message song newline html_escaped 0 message in
      (\<forall>i. \<not> dangling copy i) \<and> ReplaceMessage message song newline html_escaped = copy \<or>
      (\<exists>i. dangling copy i \<and> (\<forall>j<i. \<not> dangling copy j) \<and>
           ReplaceMessage message song newline html_escaped = take i copy @ drop (i + 3) copy)"
    by (simp add: copy_def Let_def)
next
  show "PrettyTitle song = ''Song'' \<and> artist song = [] \<longrightarrow>
      ReplaceMessage ''%title% - %artist%'' song ''\<newline>'' False = ''Song''"
  proof
    assume a: "PrettyTitle song = ''Song'' \<and> artist song = []"
    have m: "matches ''%title% - %artist%'' 0 = [(0, 7), (10, 8)]" by code_simp
    have c: "capturedText ''%title% - %artist%'' (0, 7) = ''%title%''"
      "capturedText ''%title% - %artist%'' (10, 8) = ''%artist%''"
      by (simp_all add: capturedText_def)
    have v: "ReplaceVariable ''%title%'' song ''\<newline>'' False = ''Song''"
      "ReplaceVariable ''%artist%'' song ''\<newline>'' False = []"
      using a by (simp_all add: ReplaceVariable_def)
    have r1: "replace ''%title% - %artist%'' ''%title%'' ''Song'' = ''Song - %artist%''" by code_simp
    have r2: "replace ''Song - %artist%'' ''%artist%'' [] = ''Song - ''" by code_simp
    have d: "remove_dash ''Song - '' = ''Song''" by code_simp
    show "ReplaceMessage ''%title% - %artist%'' song ''\<newline>'' False = ''Song''"
      by (simp add: ReplaceMessage_alt replace_loop_foldl m c substitute_def v r1 r2 d)
  qed
qed

text \<open>
  The theorem at the example song: in \<open>Song - > by\<close> the first dangling separator is
  at offset 4 and is followed by \<open>>\<close>, which stays; and the example of the claim.
\<close>

theorem dangling_separator_removed_once_witness:
  "replace_loop ''%title% - %artist%> by'' example_song ''\<newline>'' False 0 ''%title% - %artist%> by'' =
     ''Song - > by'' \<and>
   dangling ''Song - > by'' 4 \<and>
   ReplaceMessage ''%title% - %artist%> by'' example_song ''\<newline>'' False = ''Song> by'' \<and>
   ReplaceMessage ''%title% - %artist%'' example_song ''\<newline>'' False = ''Song''"
proof -
  let ?m = "''%title% - %artist%> by''" and ?c = "''Song - > by''"
  have copy: "replace_loop ?m example_song ''\<newline>'' False 0 ?m = ?c" by code_simp
  have d4: "dangling ?c 4" by (simp add: dangling_def)
  have nd: "\<not> dangling ?c j" if "j < 4" for j
  proof -
    from that have "j = 0 \<or> j = 1 \<or> j = 2 \<or> j = 3" by arith
    then show ?thesis by (auto simp: dangling_def)
  qed
  from dangling_separator_removed_once [of ?m example_song "''\<newline>''" False]
  have "(\<forall>i. \<not> dangling ?c i) \<and> ReplaceMessage ?m example_song ''\<newline>'' False = ?c \<or>
      (\<exists>i. dangling ?c i \<and> (\<forall>j<i. \<not> dangling ?c j) \<and>
           ReplaceMessage ?m example_song ''\<newline>'' False = take i ?c @ drop (i + 3) ?c)"
    unfolding Let_def copy by (rule conjunct1)
  with d4 obtain i where i: "dangling ?c i" "\<forall>j<i. \<not> dangling ?c j"
    "ReplaceMessage ?m example_song ''\<newline>'' False = take i ?c @ drop (i + 3) ?c"
    by blast
  have "i = 4"
  proof (rule ccontr)
    assume "i \<noteq> 4"
    then consider "i < 4" | "4 < i" by arith
    then show False
    proof cases
      case 1
      with nd i(1) show False by blast
    next
      case 2
      with i(2) d4 show False by blast
    qed
  qed
  with i(3) have 2: "ReplaceMessage ?m example_song ''\<newline>'' False = ''Song> by''" by simp
  have "PrettyTitle example_song = ''Song'' \<and> artist example_song = []"
    by (simp add: example_song_def)
  with dangling_separator_removed_once [of "''%title% - %artist%''" example_song "''\<newline>''" False]
  have 3: "ReplaceMessage ''%title% - %artist%'' example_song ''\<newline>'' False = ''Song''"
    by blast
  from copy d4 2 3 show ?thesis by (intro conjI)
qed

text \<open>
  Claim C4 as the specification states it fails: in \<open>x - \<close> followed by a line feed
  the separator is followed neither by \<open>>\<close> nor by the end of the string, and the code
  removes it all the same.
\<close>

theorem separator_before_final_line_feed:
  "ReplaceMessage ''x - \<newline>'' example_song ''\<newline>'' False = ''x\<newline>'' \<and>
   spec_remove_dash (replace_loop ''x - \<newline>'' example_song ''\<newline>'' False 0 ''x - \<newline>'') =
     ''x - \<newline>'' \<and>
   ReplaceMessage ''x - \<newline>'' example_song ''\<newline>'' False \<noteq>
   spec_remove_dash (replace_loop ''x - \<newline>'' example_song ''\<newline>'' False 0 ''x - \<newline>'')"
  by code_simp

text \<open>
  Claim C5. With escaping switched on, the value of every variable but \<open>%newline%\<close> is
  the escaped form of its value without escaping; escaping rewrites the ampersand, the two
  angle brackets and the double quote, and copies every other character; in a message with
  one variable the text around it is copied as it is; and with the artist \<open>A&B\<close> the
  message \<open><b>%artist%</b>\<close> gives \<open><b>A&amp;B</b>\<close>.
\<close>

theorem token_values_are_escaped:
  "(variable \<noteq> ''%newline%'' \<longrightarrow>
      ReplaceVariable variable song newline True =
        toHtmlEscaped (ReplaceVariable variable song newline False)) \<and>
   toHtmlEscaped [] = [] \<and>
   toHtmlEscaped (c # s) =
     (if c = CHR ''&'' then ''&amp;'' else if c = CHR ''<'' then ''&lt;''
      else if c = CHR ''>'' then ''&gt;'' else if c = CHR 0x22 then ''&quot;'' else [c]) @
     toHtmlEscaped s \<and>
   (whole_token variable \<and> variable \<noteq> ''%newline%'' \<and>
    CHR ''%'' \<notin> set pre \<and> CHR ''%'' \<notin> set post \<longrightarrow>
      ReplaceMessage (pre @ variable @ post) song newline True =
        remove_dash (pre @ toHtmlEscaped (ReplaceVariable variable song newline False) @ post)) \<and>
   (artist song = ''A&B'' \<longrightarrow>
      ReplaceMessage ''<b>%artist%</b>'' song ''\<newline>'' True = ''<b>A&amp;B</b>'')"
proof (intro conjI impI)
  assume "variable \<noteq> ''%newline%''"
  then show "ReplaceVariable variable song newline True =
        toHtmlEscaped (ReplaceVariable variable song newline False)"
    by (rule ReplaceVariable_escaped)
next
  show "toHtmlEscaped [] = []" by (simp add: toHtmlEscaped_def)
next
  show "toHtmlEscaped (c # s) =
     (if c = CHR ''&'' then ''&amp;'' else if c = CHR ''<'' then ''&lt;''
      else if c = CHR ''>'' then ''&gt;'' else if c = CHR 0x22 then ''&quot;'' else [c]) @
     toHtmlEscaped s"
    by (simp add: toHtmlEscaped_def escape_char_def)
next
  assume a: "whole_token variable \<and> variable \<noteq> ''%newline%'' \<and>
    CHR ''%'' \<notin> set pre \<and> CHR ''%'' \<notin> set post"
  then show "ReplaceMessage (pre @ variable @ post) song newline True =
        remove_dash (pre @ toHtmlEscaped (ReplaceVariable variable song newline False) @ post)"
    using ReplaceMessage_single [of variable pre post song newline True]
      ReplaceVariable_escaped [of variable song newline] by simp
next
  assume a: "artist song = ''A&B''"
  have w: "whole_token ''%artist%''" by (simp add: whole_token_def match_here_def lower_def)
  have v: "ReplaceVariable ''%artist%'' song ''\<newline>'' True = ''A&amp;B''"
    by (simp add: ReplaceVariable_def a toHtmlEscaped_def escape_char_def)
  have "ReplaceMessage (''<b>'' @ ''%artist%'' @ ''</b>'') song ''\<newline>'' True =
          remove_dash (''<b>'' @ ''A&amp;B'' @ ''</b>'')"
    using ReplaceMessage_single [OF w, of "''<b>''" "''</b>''" song "''\<newline>''" True] v by simp
  then show "ReplaceMessage ''<b>%artist%</b>'' song ''\<newline>'' True = ''<b>A&amp;B</b>''"
    by (simp add: remove_dash_none)
qed

text \<open>The theorem at the title \<open><Q> & A\<close> and at the artist \<open>A&B\<close>.\<close>

theorem token_values_are_escaped_witness:
  "''%title%'' \<noteq> ''%newline%'' \<and> whole_token ''%title%'' \<and>
   CHR ''%'' \<notin> set ''<i>'' \<and> CHR ''%'' \<notin> set ''</i>'' \<and>
   artist (example_song\<lparr>artist := ''A&B''\<rparr>) = ''A&B'' \<and>
   ReplaceVariable ''%title%'' (example_song\<lparr>PrettyTitle := ''<Q> & A''\<rparr>) ''\<newline>'' True =
     ''&lt;Q&gt; &amp; A'' \<and>
   ReplaceMessage ''<i>%title%</i>'' (example_song\<lparr>PrettyTitle := ''<Q> & A''\<rparr>) ''\<newline>'' True =
     ''<i>&lt;Q&gt; &amp; A</i>'' \<and>
   ReplaceMessage ''<b>%artist%</b>'' (example_song\<lparr>artist := ''A&B''\<rparr>) ''\<newline>'' True =
     ''<b>A&amp;B</b>''"
proof -
  let ?song = "example_song\<lparr>PrettyTitle := ''<Q> & A''\<rparr>"
  have w: "whole_token ''%title%''" by (simp add: whole_token_def match_here_def lower_def)
  have f: "ReplaceVariable ''%title%'' ?song ''\<newline>'' False = ''<Q> & A''"
    by (simp add: ReplaceVariable_def)
  have e: "toHtmlEscaped ''<Q> & A'' = ''&lt;Q&gt; &amp; A''"
    by (simp add: toHtmlEscaped_def escape_char_def)
  note t = token_values_are_escaped [of "''%title%''" ?song "''\<newline>''" "CHR ''x''" "[]" "''<i>''" "''</i>''"]
  from t f e have 1: "ReplaceVariable ''%title%'' ?song ''\<newline>'' True = ''&lt;Q&gt; &amp; A''"
    by simp
  from t w f e have "ReplaceMessage (''<i>'' @ ''%title%'' @ ''</i>'') ?song ''\<newline>'' True =
      remove_dash (''<i>'' @ ''&lt;Q&gt; &amp; A'' @ ''</i>'')" by simp
  then have 2: "ReplaceMessage ''<i>%title%</i>'' ?song ''\<newline>'' True = ''<i>&lt;Q&gt; &amp; A</i>''"
    by (simp add: remove_dash_none)
  have 3: "ReplaceMessage ''<b>%artist%</b>'' (example_song\<lparr>artist := ''A&B''\<rparr>) ''\<newline>'' True =
     ''<b>A&amp;B</b>''"
    using token_values_are_escaped [of "''%title%''" "example_song\<lparr>artist := ''A&B''\<rparr>" "''\<newline>''" "CHR ''x''" "[]" "[]" "[]"]
    by simp
  from w 1 2 3 show ?thesis by simp
qed

section \<open>Recursive copy, removal and trash\<close>

text \<open>
  \<open>CopyRecursive\<close>, \<open>RemoveRecursive\<close> and \<open>MoveToTrashRecursive\<close> act on the
  filesystem through \<open>QDir\<close> and \<open>QFile\<close>. The filesystem is a state that the
  functions take and return; each Qt call used is a function on that state, written from
  Qt's documentation.

  What the state covers: plain files and directories, no symbolic links. An entry is kept
  under its path, the list of names that leads to it from the root. An entry is hidden when
  \<open>QFileInfo::isHidden\<close> says so. An entry is locked when the operating system refuses
  to remove, trash or read it; this is how a failure of a single Qt call enters the model.
  The state also keeps the list of the Qt calls made so far with their results, so that the
  order of the calls can be stated, and one fact about the platform, used when a directory
  is created: whether a name that begins with a dot is hidden, as on Unix.

  What the state leaves out: the operating system's limit on the length of a path. The
  program meets it when a directory is copied into itself; the model has no such limit.
\<close>

subsection \<open>The filesystem\<close>

type_synonym path = "string list"

datatype entry =
    File (hidden: bool) (locked: bool) (bytes: string)
  | Directory (hidden: bool) (locked: bool)

datatype call = Remove path | MoveToTrash path | Rmdir path | Mkpath path | Copy path path

record filesystem =
  entries :: "(path \<times> entry) list"
  trash :: "(path \<times> entry) list"
  calls :: "(call \<times> bool) list"
  dot_hidden :: bool

definition lookup :: "filesystem \<Rightarrow> path \<Rightarrow> entry option" where
  "lookup fs p = map_of (entries fs) p"

definition isDir :: "filesystem \<Rightarrow> path \<Rightarrow> bool" where
  "isDir fs p = (case lookup fs p of Some (Directory h l) \<Rightarrow> True | _ \<Rightarrow> False)"

text \<open>The names of the entries that lie directly in \<open>p\<close>.\<close>

definition children :: "filesystem \<Rightarrow> path \<Rightarrow> string list" where
  "children fs p = map (last \<circ> fst) (filter (\<lambda>(q, e). q \<noteq> [] \<and> butlast q = p) (entries fs))"

text \<open>The event appended to the list of calls.\<close>

definition called :: "call \<Rightarrow> bool \<Rightarrow> filesystem \<Rightarrow> filesystem" where
  "called c ok fs = fs\<lparr>calls := calls fs @ [(c, ok)]\<rparr>"

definition erase :: "path \<Rightarrow> (path \<times> entry) list \<Rightarrow> (path \<times> entry) list" where
  "erase p es = filter (\<lambda>(q, e). q \<noteq> p) es"

subsection \<open>Path names\<close>

text \<open>
  The functions of the source take a path as a \<open>QString\<close>, which is absolute
  (\<open>/music/live\<close>) or relative (\<open>music/live\<close>). A path name is kept here as its
  names, and a relative one has at least one: the empty string, the names \<open>.\<close> and
  \<open>..\<close> and doubled or final separators are not path names of the model. The operating
  system resolves a relative name against the current directory of the process,
  \<open>cwd\<close>, which none of the calls below changes.
\<close>

datatype pathname = Absolute path | Relative string path

fun sections :: "pathname \<Rightarrow> string list" where
  "sections (Absolute ns) = ns"
| "sections (Relative n ns) = n # ns"

fun isAbsolute :: "pathname \<Rightarrow> bool" where
  "isAbsolute (Absolute ns) = True"
| "isAbsolute (Relative n ns) = False"

text \<open>The path of the entry that a path name stands for.\<close>

fun location :: "path \<Rightarrow> pathname \<Rightarrow> path" where
  "location cwd (Absolute ns) = ns"
| "location cwd (Relative n ns) = cwd @ n # ns"

text \<open>\<open>path + "/" + rest\<close>, for one name or several.\<close>

fun extend :: "pathname \<Rightarrow> string list \<Rightarrow> pathname" where
  "extend (Absolute ns) rest = Absolute (ns @ rest)"
| "extend (Relative n ns) rest = Relative n (ns @ rest)"

definition slash :: "pathname \<Rightarrow> string \<Rightarrow> pathname" where
  "slash path child = extend path [child]"

text \<open>
  \<open>QDir::filePath(fileName)\<close>, by which \<open>QDir::rmdir\<close> finds the directory to
  remove: an absolute \<open>fileName\<close> is taken as it is, a relative one is appended to the
  path of the \<open>QDir\<close> object.
\<close>

fun QDir_filePath :: "pathname \<Rightarrow> pathname \<Rightarrow> pathname" where
  "QDir_filePath dir (Absolute ns) = Absolute ns"
| "QDir_filePath dir (Relative n ns) = extend dir (n # ns)"

subsection \<open>The Qt calls\<close>

text \<open>
  Each call is given for the path that its file name resolves to.

  \<open>QDir::entryList(filters)\<close> with the four flags the source uses. \<open>Dirs\<close> and
  \<open>Files\<close> choose the kind of entry; a hidden entry is listed only with \<open>Hidden\<close>;
  \<open>NoDotAndDotDot\<close> drops \<open>.\<close> and \<open>..\<close>, which are not entries here. A path that
  is not a directory lists nothing. The source passes no sort flags, so the names come in
  Qt's default order, \<open>QDir::Name | QDir::IgnoreCase\<close>: compared after
  \<open>toLower\<close>. Qt leaves open the order of two names that differ only in case; here the
  one with the smaller first differing character comes first. Letters outside ASCII are
  compared as they are.
\<close>

datatype QDir_Filter = Dirs | Files | Hidden | NoDotAndDotDot

definition accepts :: "QDir_Filter list \<Rightarrow> entry \<Rightarrow> bool" where
  "accepts filters e =
     ((case e of File h l b \<Rightarrow> Files \<in> set filters | Directory h l \<Rightarrow> Dirs \<in> set filters) \<and>
      (Hidden \<in> set filters \<or> \<not> hidden e))"

definition toLower :: "string \<Rightarrow> string" where
  "toLower s =
     map (\<lambda>c. if CHR ''A'' \<le> c \<and> c \<le> CHR ''Z''
               then (case c of Char b0 b1 b2 b3 b4 b5 b6 b7 \<Rightarrow> Char b0 b1 b2 b3 b4 True b6 b7)
               else c) s"

definition sort_name :: "string \<Rightarrow> string \<times> string" where
  "sort_name name = (toLower name, name)"

definition entryList :: "filesystem \<Rightarrow> path \<Rightarrow> QDir_Filter list \<Rightarrow> string list" where
  "entryList fs p filters =
     (if isDir fs p
      then sort_key sort_name (remdups (filter
             (\<lambda>child. case lookup fs (p @ [child]) of Some e \<Rightarrow> accepts filters e | None \<Rightarrow> False)
             (children fs p)))
      else [])"

text \<open>\<open>QFile::remove(fileName)\<close> deletes a file; it fails on anything else.\<close>

definition QFile_remove :: "path \<Rightarrow> filesystem \<Rightarrow> bool \<times> filesystem" where
  "QFile_remove p fs =
     (case lookup fs p of
        Some (File h l b) \<Rightarrow>
          if l then (False, called (Remove p) False fs)
          else (True, called (Remove p) True (fs\<lparr>entries := erase p (entries fs)\<rparr>))
      | _ \<Rightarrow> (False, called (Remove p) False fs))"

text \<open>
  \<open>QFile::moveToTrash(fileName)\<close>, for a file, which is all the source passes to it:
  the file leaves its directory and is kept in the trash.
\<close>

definition QFile_moveToTrash :: "path \<Rightarrow> filesystem \<Rightarrow> bool \<times> filesystem" where
  "QFile_moveToTrash p fs =
     (case lookup fs p of
        Some (File h l b) \<Rightarrow>
          if l then (False, called (MoveToTrash p) False fs)
          else (True, called (MoveToTrash p) True
                  (fs\<lparr>entries := erase p (entries fs), trash := trash fs @ [(p, File h l b)]\<rparr>))
      | _ \<Rightarrow> (False, called (MoveToTrash p) False fs))"

text \<open>The directory removed by the system call \<open>rmdir\<close> must have no entries.\<close>

definition QDir_rmdir :: "path \<Rightarrow> filesystem \<Rightarrow> bool \<times> filesystem" where
  "QDir_rmdir p fs =
     (case lookup fs p of
        Some (Directory h l) \<Rightarrow>
          if l \<or> children fs p \<noteq> [] then (False, called (Rmdir p) False fs)
          else (True, called (Rmdir p) True (fs\<lparr>entries := erase p (entries fs)\<rparr>))
      | _ \<Rightarrow> (False, called (Rmdir p) False fs))"

text \<open>
  \<open>QDir::mkpath(dirPath)\<close> creates the directory and every missing directory above it;
  it fails when a file is in the way, and succeeds when the directory is already there.
  Where names that begin with a dot are hidden, a directory created under such a name is
  hidden.
\<close>

definition ancestors :: "path \<Rightarrow> path list" where
  "ancestors p = map (\<lambda>i. take i p) [1..<Suc (length p)]"

definition dot_name :: "path \<Rightarrow> bool" where
  "dot_name q = (q \<noteq> [] \<and> take 1 (last q) = ''.'')"

definition QDir_mkpath :: "path \<Rightarrow> filesystem \<Rightarrow> bool \<times> filesystem" where
  "QDir_mkpath p fs =
     (if list_ex (\<lambda>q. case lookup fs q of Some (File h l b) \<Rightarrow> True | _ \<Rightarrow> False) (ancestors p)
      then (False, called (Mkpath p) False fs)
      else (True, called (Mkpath p) True
              (fs\<lparr>entries := entries fs @
                   map (\<lambda>q. (q, Directory (dot_hidden fs \<and> dot_name q) False))
                     (filter (\<lambda>q. lookup fs q = None) (ancestors p))\<rparr>)))"

text \<open>
  \<open>QFile::copy(fileName, newName)\<close> copies a file that can be read to a name that is
  free, in a directory that exists; it never overwrites.
\<close>

definition QFile_copy :: "path \<Rightarrow> path \<Rightarrow> filesystem \<Rightarrow> bool \<times> filesystem" where
  "QFile_copy fileName newName fs =
     (case lookup fs fileName of
        Some (File h l b) \<Rightarrow>
          if l \<or> lookup fs newName \<noteq> None \<or> newName = [] \<or> \<not> isDir fs (butlast newName)
          then (False, called (Copy fileName newName) False fs)
          else (True, called (Copy fileName newName) True
                  (fs\<lparr>entries := entries fs @ [(newName, File h l b)]\<rparr>))
      | _ \<Rightarrow> (False, called (Copy fileName newName) False fs))"

subsection \<open>The three functions\<close>

text \<open>
  The loops of the source all have the shape
  \<^verbatim>\<open>for (child : list) { if (!body(child)) return false; }\<close>.
  \<open>for_each body list s\<close> runs such a loop from the state \<open>s\<close>: it returns \<open>False\<close>
  with the state in which the first failing \<open>body\<close> ended, or \<open>True\<close> with the state
  after the last one. The list is computed once, before the loop, as a range-based
  \<open>for\<close> does.
\<close>

fun for_each :: "('a \<Rightarrow> 's \<Rightarrow> (bool \<times> 's) option) \<Rightarrow> 'a list \<Rightarrow> 's \<Rightarrow> (bool \<times> 's) option" where
  "for_each body [] s = Some (True, s)"
| "for_each body (x # xs) s =
     (case body x s of
        None \<Rightarrow> None
      | Some (ok, s') \<Rightarrow> if ok then for_each body xs s' else Some (False, s'))"

text \<open>
  The functions call themselves on each child directory. Their argument \<open>depth\<close>
  bounds the depth of these calls: with depth 0 a call does not return (\<open>None\<close>). A
  directory tree that contains itself, which \<open>CopyRecursive\<close> builds in this model when
  the destination lies inside the source, exhausts every depth.

  \<open>RemoveRecursive\<close> ends with \<open>dir.rmdir(path)\<close>, where \<open>dir\<close> is
  \<open>QDir(path)\<close>: the directory removed is \<open>QDir_filePath path path\<close>.
\<close>

primrec RemoveRecursive :: "path \<Rightarrow> nat \<Rightarrow> pathname \<Rightarrow> filesystem \<Rightarrow> (bool \<times> filesystem) option" where
  "RemoveRecursive cwd 0 path fs = None"
| "RemoveRecursive cwd (Suc depth) path fs =
     (case for_each (\<lambda>child. RemoveRecursive cwd depth (slash path child))
             (entryList fs (location cwd path) [NoDotAndDotDot, Dirs, Hidden]) fs of
        None \<Rightarrow> None
      | Some (ok, fs1) \<Rightarrow>
          if \<not> ok then Some (False, fs1)
          else
            (case for_each (\<lambda>child fs'. Some (QFile_remove (location cwd (slash path child)) fs'))
                    (entryList fs1 (location cwd path) [NoDotAndDotDot, Files, Hidden]) fs1 of
               None \<Rightarrow> None
             | Some (ok, fs2) \<Rightarrow>
                 if \<not> ok then Some (False, fs2)
                 else Some (QDir_rmdir (location cwd (QDir_filePath path path)) fs2)))"

text \<open>
  \<open>QT_VERSION_CHECK(major, minor, patch)\<close> is \<open>(major<<16)|(minor<<8)|patch\<close>. The
  version of Qt the program is compiled with is an argument of \<open>MoveToTrashRecursive\<close>;
  below 5.15 the body of the function is \<open>return false\<close>.
\<close>

definition QT_VERSION_CHECK :: "int \<Rightarrow> int \<Rightarrow> int \<Rightarrow> int" where
  "QT_VERSION_CHECK major minor patch = or (or (push_bit 16 major) (push_bit 8 minor)) patch"

primrec MoveToTrashRecursive ::
    "int \<Rightarrow> path \<Rightarrow> nat \<Rightarrow> pathname \<Rightarrow> filesystem \<Rightarrow> (bool \<times> filesystem) option" where
  "MoveToTrashRecursive QT_VERSION cwd 0 path fs =
     (if QT_VERSION_CHECK 5 15 0 \<le> QT_VERSION then None else Some (False, fs))"
| "MoveToTrashRecursive QT_VERSION cwd (Suc depth) path fs =
     (if QT_VERSION_CHECK 5 15 0 \<le> QT_VERSION then
        (case for_each (\<lambda>child. MoveToTrashRecursive QT_VERSION cwd depth (slash path child))
                (entryList fs (location cwd path) [NoDotAndDotDot, Dirs, Hidden]) fs of
           None \<Rightarrow> None
         | Some (ok, fs1) \<Rightarrow>
             if \<not> ok then Some (False, fs1)
             else
               (case for_each (\<lambda>child fs'. Some (QFile_moveToTrash (location cwd (slash path child)) fs'))
                       (entryList fs1 (location cwd path) [NoDotAndDotDot, Files, Hidden]) fs1 of
                  None \<Rightarrow> None
                | Some (ok, fs2) \<Rightarrow>
                    if \<not> ok then Some (False, fs2)
                    else Some (QDir_rmdir (location cwd (QDir_filePath path path)) fs2)))
      else Some (False, fs))"

text \<open>
  \<open>source.section('/', -1, -1)\<close> is the last name of the path, and nothing for the
  root. \<open>QDir().mkpath(dest_path)\<close> is called on the current directory; its result is
  not looked at, and the warnings written to the log are left out.
\<close>

definition section_last :: "pathname \<Rightarrow> string list" where
  "section_last source = (if sections source = [] then [] else [last (sections source)])"

primrec CopyRecursive ::
    "path \<Rightarrow> nat \<Rightarrow> pathname \<Rightarrow> pathname \<Rightarrow> filesystem \<Rightarrow> (bool \<times> filesystem) option" where
  "CopyRecursive cwd 0 source destination fs = None"
| "CopyRecursive cwd (Suc depth) source destination fs =
     (let dir_name = section_last source;
          dest_path = extend destination dir_name;
          fs0 = snd (QDir_mkpath (location cwd dest_path) fs)
      in case for_each (\<lambda>child. CopyRecursive cwd depth (slash source child) dest_path)
                (entryList fs0 (location cwd source) [NoDotAndDotDot, Dirs]) fs0 of
           None \<Rightarrow> None
         | Some (ok, fs1) \<Rightarrow>
             if \<not> ok then Some (False, fs1)
             else
               (case for_each (\<lambda>child fs'. Some (QFile_copy (location cwd (slash source child))
                                                  (location cwd (slash dest_path child)) fs'))
                       (entryList fs1 (location cwd source) [NoDotAndDotDot, Files]) fs1 of
                  None \<Rightarrow> None
                | Some (ok, fs2) \<Rightarrow> if \<not> ok then Some (False, fs2) else Some (True, fs2)))"


subsection \<open>Filesystems for the examples\<close>

text \<open>
  A directory \<open>music\<close> with a file, a hidden file, a directory and a hidden directory,
  next to an empty directory \<open>backup\<close>.
\<close>

definition example_fs :: filesystem where
  "example_fs =
     \<lparr>entries =
        [([], Directory False False),
         ([''music''], Directory False False),
         ([''music'', ''a.mp3''], File False False ''aaa''),
         ([''music'', ''.cover''], File True False ''jpg''),
         ([''music'', ''live''], Directory False False),
         ([''music'', ''live'', ''b.mp3''], File False False ''bbb''),
         ([''music'', ''.cache''], Directory True False),
         ([''music'', ''.cache'', ''c.tmp''], File False False ''ccc''),
         ([''backup''], Directory False False)],
      trash = [], calls = [], dot_hidden = True\<rparr>"

text \<open>The same, with the file in \<open>music/live\<close> locked.\<close>

definition locked_fs :: filesystem where
  "locked_fs =
     \<lparr>entries =
        [([], Directory False False),
         ([''music''], Directory False False),
         ([''music'', ''a.mp3''], File False False ''aaa''),
         ([''music'', ''.cover''], File True False ''jpg''),
         ([''music'', ''live''], Directory False False),
         ([''music'', ''live'', ''b.mp3''], File False True ''bbb''),
         ([''music'', ''.cache''], Directory True False),
         ([''music'', ''.cache'', ''c.tmp''], File False False ''ccc''),
         ([''backup''], Directory False False)],
      trash = [], calls = [], dot_hidden = True\<rparr>"

text \<open>A directory \<open>music\<close> whose last file is locked.\<close>

definition busy_fs :: filesystem where
  "busy_fs =
     \<lparr>entries =
        [([], Directory False False),
         ([''music''], Directory False False),
         ([''music'', ''a.mp3''], File False False ''aaa''),
         ([''music'', ''.cover''], File True False ''jpg''),
         ([''music'', ''live''], Directory False False),
         ([''music'', ''live'', ''b.mp3''], File False False ''bbb''),
         ([''music'', ''z.mp3''], File False True ''zzz''),
         ([''backup''], Directory False False)],
      trash = [], calls = [], dot_hidden = True\<rparr>"

text \<open>
  A directory \<open>/home/music\<close> with a file and a hidden file, for a process whose
  current directory is \<open>/home\<close>.
\<close>

definition home_fs :: filesystem where
  "home_fs =
     \<lparr>entries =
        [([], Directory False False),
         ([''home''], Directory False False),
         ([''home'', ''music''], Directory False False),
         ([''home'', ''music'', ''a.mp3''], File False False ''aaa''),
         ([''home'', ''music'', ''.cover''], File True False ''jpg'')],
      trash = [], calls = [], dot_hidden = True\<rparr>"

subsection \<open>Facts about the filesystem and about the loops\<close>

lemma map_of_erase: "map_of (erase p es) q = (if q = p then None else map_of es q)"
  by (induction es) (auto simp: erase_def)

lemma lookup_erase [simp]:
  "lookup (fs\<lparr>entries := erase p (entries fs)\<rparr>) q = (if q = p then None else lookup fs q)"
  by (simp add: lookup_def map_of_erase)

lemma lookup_called [simp]: "lookup (called c ok fs) = lookup fs"
  by (rule ext) (simp add: lookup_def called_def)

lemma entries_called [simp]: "entries (called c ok fs) = entries fs"
  by (simp add: called_def)

lemma calls_called [simp]: "calls (called c ok fs) = calls fs @ [(c, ok)]"
  by (simp add: called_def)

lemma trash_called [simp]: "trash (called c ok fs) = trash fs"
  by (simp add: called_def)

lemma children_iff: "child \<in> set (children fs p) \<longleftrightarrow> lookup fs (p @ [child]) \<noteq> None"
proof
  assume "child \<in> set (children fs p)"
  then obtain q e where qe: "(q, e) \<in> set (entries fs)" "q \<noteq> []" "butlast q = p" "last q = child"
    by (auto simp: children_def)
  then have "q = p @ [child]" by (metis append_butlast_last_id)
  with qe(1) show "lookup fs (p @ [child]) \<noteq> None"
    by (auto simp: lookup_def map_of_eq_None_iff intro: rev_image_eqI)
next
  assume "lookup fs (p @ [child]) \<noteq> None"
  then obtain e where "map_of (entries fs) (p @ [child]) = Some e" by (auto simp: lookup_def)
  then have "(p @ [child], e) \<in> set (entries fs)" by (rule map_of_SomeD)
  then show "child \<in> set (children fs p)"
    by (force simp: children_def)
qed

lemma children_empty: "children fs p = [] \<longleftrightarrow> (\<forall>child. lookup fs (p @ [child]) = None)"
proof -
  have "children fs p = [] \<longleftrightarrow> (\<forall>child. child \<notin> set (children fs p))" by auto
  then show ?thesis by (simp add: children_iff)
qed

text \<open>The set of names that \<open>entryList\<close> returns.\<close>

definition listed :: "filesystem \<Rightarrow> path \<Rightarrow> QDir_Filter list \<Rightarrow> string set" where
  "listed fs p filters =
     (if isDir fs p then {child. \<exists>e. lookup fs (p @ [child]) = Some e \<and> accepts filters e} else {})"

lemma set_entryList: "set (entryList fs p filters) = listed fs p filters"
  by (auto simp: entryList_def listed_def children_iff split: option.splits)

lemma inj_sort_name: "inj sort_name"
  by (auto simp: inj_def sort_name_def)

lemma sort_name_unique:
  assumes "set xs = set ys"
  shows "sort_key sort_name (remdups xs) = sort_key sort_name (remdups ys)"
proof -
  let ?a = "sort_key sort_name (remdups xs)" and ?b = "sort_key sort_name (remdups ys)"
  have d: "distinct (map sort_name (sort_key sort_name (remdups zs)))" for zs
    using inj_sort_name by (simp add: distinct_map inj_on_def inj_def)
  have "map sort_name ?a = map sort_name ?b"
  proof (rule sorted_distinct_set_unique)
    show "sorted (map sort_name ?a)" "sorted (map sort_name ?b)" by simp_all
    show "distinct (map sort_name ?a)" "distinct (map sort_name ?b)" by (rule d)+
    from assms show "set (map sort_name ?a) = set (map sort_name ?b)" by simp
  qed
  with inj_sort_name show ?thesis by (simp add: inj_map_eq_map)
qed

lemma entryList_of_listed:
  "\<exists>xs. entryList fs p filters = sort_key sort_name (remdups xs) \<and> set xs = listed fs p filters"
proof (cases "isDir fs p")
  case True
  let ?xs = "filter (\<lambda>child. case lookup fs (p @ [child]) of Some e \<Rightarrow> accepts filters e | None \<Rightarrow> False)
               (children fs p)"
  from True have e: "entryList fs p filters = sort_key sort_name (remdups ?xs)"
    by (simp add: entryList_def)
  with set_entryList [of fs p filters] have "set ?xs = listed fs p filters" by simp
  with e show ?thesis by blast
next
  case False
  then have "entryList fs p filters = sort_key sort_name (remdups []) \<and> set [] = listed fs p filters"
    by (simp add: entryList_def listed_def)
  then show ?thesis by blast
qed

lemma distinct_entryList: "distinct (entryList fs p filters)"
  by (simp add: entryList_def)

lemma entryList_eqI:
  assumes "listed fs p filters = listed fs' p filters"
  shows "entryList fs p filters = entryList fs' p filters"
proof -
  from entryList_of_listed [of fs p filters] entryList_of_listed [of fs' p filters]
  obtain xs ys where x: "entryList fs p filters = sort_key sort_name (remdups xs)"
    and y: "entryList fs' p filters = sort_key sort_name (remdups ys)" and "set xs = set ys"
    using assms by auto
  from this(3) have "sort_key sort_name (remdups xs) = sort_key sort_name (remdups ys)"
    by (rule sort_name_unique)
  with x y show ?thesis by simp
qed

lemma for_each_append:
  "for_each body (xs @ ys) s =
     (case for_each body xs s of
        None \<Rightarrow> None
      | Some (ok, s') \<Rightarrow> if ok then for_each body ys s' else Some (False, s'))"
  by (induction xs arbitrary: s) (auto split: option.splits)

lemma for_each_stops:
  assumes "for_each body before s = Some (True, s1)" "body x s1 = Some (False, s2)"
  shows "for_each body (before @ x # after) s = Some (False, s2)"
  using assms by (simp add: for_each_append)

lemma for_each_rel:
  assumes refl: "\<And>s. R s s" and trans: "\<And>a b c. R a b \<Longrightarrow> R b c \<Longrightarrow> R a c"
    and step: "\<forall>x \<in> set xs. \<forall>s ok s'. body x s = Some (ok, s') \<longrightarrow> R s s'"
    and run: "for_each body xs s = Some (ok, s')"
  shows "R s s'"
  using step run
proof (induction xs arbitrary: s)
  case Nil
  then show ?case using refl by simp
next
  case (Cons x xs)
  from Cons.prems(2) obtain ok1 s1 where b: "body x s = Some (ok1, s1)"
    by (auto split: option.splits)
  with Cons.prems(1) have r1: "R s s1" by auto
  from Cons.prems(1) have rest: "\<forall>x \<in> set xs. \<forall>s ok s'. body x s = Some (ok, s') \<longrightarrow> R s s'"
    by simp
  show ?case
  proof (cases ok1)
    case True
    with b Cons.prems(2) have "for_each body xs s1 = Some (ok, s')" by simp
    from Cons.IH [OF rest this] have "R s1 s'" .
    with r1 show ?thesis by (rule trans)
  next
    case False
    with b Cons.prems(2) have "s' = s1" by simp
    with r1 show ?thesis by simp
  qed
qed

lemma for_each_total:
  assumes step: "\<forall>x \<in> set xs. \<forall>s. I s \<longrightarrow> (\<exists>ok s'. body x s = Some (ok, s') \<and> I s')"
    and "I s"
  shows "\<exists>ok s'. for_each body xs s = Some (ok, s') \<and> I s'"
  using assms
proof (induction xs arbitrary: s)
  case Nil
  then show ?case by auto
next
  case (Cons x xs)
  from Cons.prems obtain ok1 s1 where b: "body x s = Some (ok1, s1)" "I s1"
    by (meson list.set_intros(1))
  from Cons.prems(1) have rest: "\<forall>x \<in> set xs. \<forall>s. I s \<longrightarrow> (\<exists>ok s'. body x s = Some (ok, s') \<and> I s')"
    by simp
  show ?case
  proof (cases ok1)
    case True
    from Cons.IH [OF rest b(2)] obtain ok s' where "for_each body xs s1 = Some (ok, s')" "I s'"
      by auto
    with b True show ?thesis by auto
  next
    case False
    with b show ?thesis by auto
  qed
qed

subsection \<open>The walk shared by removal and trash\<close>

text \<open>
  \<open>RemoveRecursive\<close> and \<open>MoveToTrashRecursive\<close> differ only in the call they
  make on a file. \<open>walk leaf tgt\<close> is their common shape, with that call as \<open>leaf\<close>;
  the two functions are instances of it (\<open>RemoveRecursive_walk\<close> and
  \<open>MoveToTrashRecursive_walk\<close> below), and the facts proved for \<open>walk\<close> hold for both.
\<close>

primrec walk :: "(path \<Rightarrow> filesystem \<Rightarrow> bool \<times> filesystem) \<Rightarrow> (path \<Rightarrow> path) \<Rightarrow> nat \<Rightarrow> path \<Rightarrow>
    filesystem \<Rightarrow> (bool \<times> filesystem) option" where
  "walk leaf tgt 0 path fs = None"
| "walk leaf tgt (Suc depth) path fs =
     (case for_each (\<lambda>child. walk leaf tgt depth (path @ [child]))
             (entryList fs path [NoDotAndDotDot, Dirs, Hidden]) fs of
        None \<Rightarrow> None
      | Some (ok, fs1) \<Rightarrow>
          if \<not> ok then Some (False, fs1)
          else
            (case for_each (\<lambda>child fs'. Some (leaf (path @ [child]) fs'))
                    (entryList fs1 path [NoDotAndDotDot, Files, Hidden]) fs1 of
               None \<Rightarrow> None
             | Some (ok, fs2) \<Rightarrow>
                 if \<not> ok then Some (False, fs2) else Some (QDir_rmdir (tgt path) fs2)))"

text \<open>
  What the facts need of \<open>leaf\<close>: the call is recorded with its result, it succeeds
  on a file that is not locked and on nothing else, a success deletes the file at the path
  and nothing else, a failure changes no entry. What they need of \<open>tgt\<close>, which
  gives the directory that the last step removes: it lies at or below the directory walked.
\<close>

definition below :: "(path \<Rightarrow> path) \<Rightarrow> bool" where
  "below tgt = (\<forall>p. prefix p (tgt p))"

definition deletes_a_file :: "(path \<Rightarrow> call) \<Rightarrow> (path \<Rightarrow> filesystem \<Rightarrow> bool \<times> filesystem) \<Rightarrow> bool" where
  "deletes_a_file mk leaf =
     (\<forall>p fs. \<exists>ok fs'. leaf p fs = (ok, fs') \<and> calls fs' = calls fs @ [(mk p, ok)] \<and>
        lookup fs' = (if ok then (lookup fs)(p := None) else lookup fs) \<and>
        (ok \<longleftrightarrow> (\<exists>h b. lookup fs p = Some (File h False b))))"

text \<open>Every entry is as before, or lay at or below \<open>p\<close> and is gone.\<close>

definition changes_within :: "path \<Rightarrow> filesystem \<Rightarrow> filesystem \<Rightarrow> bool" where
  "changes_within p fs fs' =
     (\<forall>q. lookup fs' q = lookup fs q \<or> (prefix p q \<and> lookup fs' q = None))"

text \<open>
  The directory that the last step of \<open>RemoveRecursive\<close> and of
  \<open>MoveToTrashRecursive\<close> removes, from the path \<open>p\<close> that the path name
  resolves to: \<open>p\<close> itself for an absolute path name; for a relative one, \<open>p\<close>
  followed once more by the names of the path name.
\<close>

definition rmdir_target :: "path \<Rightarrow> pathname \<Rightarrow> path \<Rightarrow> path" where
  "rmdir_target cwd path p = (if isAbsolute path then p else p @ drop (length cwd) p)"

lemma location_extend [simp]: "location cwd (extend path rest) = location cwd path @ rest"
  by (cases path) simp_all

lemma location_slash [simp]: "location cwd (slash path child) = location cwd path @ [child]"
  by (simp add: slash_def)

lemma isAbsolute_slash [simp]: "isAbsolute (slash path child) = isAbsolute path"
  by (cases path) (simp_all add: slash_def)

lemma rmdir_target_slash [simp]: "rmdir_target cwd (slash path child) = rmdir_target cwd path"
  by (rule ext) (simp add: rmdir_target_def)

lemma rmdir_target_Absolute [simp]: "rmdir_target cwd (Absolute ns) = (\<lambda>p. p)"
  by (rule ext) (simp add: rmdir_target_def)

lemma location_filePath:
  "location cwd (QDir_filePath path path) = rmdir_target cwd path (location cwd path)"
  by (cases path) (simp_all add: rmdir_target_def)

lemma below_rmdir_target: "below (rmdir_target cwd path)"
  by (simp add: below_def rmdir_target_def)

lemma below_same: "below (\<lambda>p. p)"
  by (simp add: below_def)

lemma RemoveRecursive_walk:
  "RemoveRecursive cwd depth path fs =
     walk QFile_remove (rmdir_target cwd path) depth (location cwd path) fs"
proof (induction depth arbitrary: path fs)
  case 0
  show ?case by simp
next
  case (Suc depth)
  have "(\<lambda>child. RemoveRecursive cwd depth (slash path child)) =
        (\<lambda>child. walk QFile_remove (rmdir_target cwd path) depth (location cwd path @ [child]))"
    by (intro ext) (simp add: Suc)
  then show ?case by (simp add: location_filePath cong: option.case_cong if_cong)
qed

lemma MoveToTrashRecursive_walk:
  assumes "QT_VERSION_CHECK 5 15 0 \<le> QT_VERSION"
  shows "MoveToTrashRecursive QT_VERSION cwd depth path fs =
     walk QFile_moveToTrash (rmdir_target cwd path) depth (location cwd path) fs"
proof (induction depth arbitrary: path fs)
  case 0
  from assms show ?case by simp
next
  case (Suc depth)
  have "(\<lambda>child. MoveToTrashRecursive QT_VERSION cwd depth (slash path child)) =
        (\<lambda>child. walk QFile_moveToTrash (rmdir_target cwd path) depth (location cwd path @ [child]))"
    by (intro ext) (simp add: Suc)
  with assms show ?case by (simp add: location_filePath cong: option.case_cong if_cong)
qed

lemma QFile_remove_deletes: "deletes_a_file Remove QFile_remove"
  unfolding deletes_a_file_def
proof (intro allI)
  fix p fs
  show "\<exists>ok fs'. QFile_remove p fs = (ok, fs') \<and> calls fs' = calls fs @ [(Remove p, ok)] \<and>
        lookup fs' = (if ok then (lookup fs)(p := None) else lookup fs) \<and>
        (ok \<longleftrightarrow> (\<exists>h b. lookup fs p = Some (File h False b)))"
    by (cases "lookup fs p"; cases "the (lookup fs p)")
      (auto simp: QFile_remove_def fun_eq_iff called_def lookup_def map_of_erase)
qed

lemma QFile_moveToTrash_deletes: "deletes_a_file MoveToTrash QFile_moveToTrash"
  unfolding deletes_a_file_def
proof (intro allI)
  fix p fs
  show "\<exists>ok fs'. QFile_moveToTrash p fs = (ok, fs') \<and> calls fs' = calls fs @ [(MoveToTrash p, ok)] \<and>
        lookup fs' = (if ok then (lookup fs)(p := None) else lookup fs) \<and>
        (ok \<longleftrightarrow> (\<exists>h b. lookup fs p = Some (File h False b)))"
    by (cases "lookup fs p"; cases "the (lookup fs p)")
      (auto simp: QFile_moveToTrash_def fun_eq_iff called_def lookup_def map_of_erase)
qed

lemma QDir_rmdir_spec:
  assumes "QDir_rmdir p fs = (ok, fs')"
  shows "calls fs' = calls fs @ [(Rmdir p, ok)]"
    and "lookup fs' = (if ok then (lookup fs)(p := None) else lookup fs)"
    and "ok \<longleftrightarrow> (\<exists>h. lookup fs p = Some (Directory h False)) \<and> (\<forall>child. lookup fs (p @ [child]) = None)"
  using assms
  by (cases "lookup fs p"; cases "the (lookup fs p)";
      auto simp: QDir_rmdir_def fun_eq_iff called_def lookup_def map_of_erase children_empty
        split: if_splits)+

lemma changes_within_refl: "changes_within p fs fs"
  by (simp add: changes_within_def)

lemma changes_within_trans:
  "changes_within p a b \<Longrightarrow> changes_within p b c \<Longrightarrow> changes_within p a c"
  unfolding changes_within_def by metis

lemma changes_within_child: "changes_within (p @ [child]) fs fs' \<Longrightarrow> changes_within p fs fs'"
  unfolding changes_within_def by (metis append_prefixD)

lemma changes_within_delete:
  "prefix p q \<Longrightarrow> lookup fs' = (lookup fs)(q := None) \<Longrightarrow> changes_within p fs fs'"
  by (simp add: changes_within_def)

lemma changes_within_same: "lookup fs' = lookup fs \<Longrightarrow> changes_within p fs fs'"
  by (simp add: changes_within_def)

lemma leaf_changes_within:
  assumes "deletes_a_file mk leaf" "leaf (p @ [child]) fs = (ok, fs')"
  shows "changes_within p fs fs'"
proof -
  from assms(1) obtain ok1 s1 where "leaf (p @ [child]) fs = (ok1, s1)"
    "lookup s1 = (if ok1 then (lookup fs)((p @ [child]) := None) else lookup fs)"
    unfolding deletes_a_file_def by blast
  with assms(2) have "lookup fs' = (if ok then (lookup fs)((p @ [child]) := None) else lookup fs)"
    by simp
  then show ?thesis
    using changes_within_delete [of p "p @ [child]" fs' fs] changes_within_same [of fs' fs p]
    by (cases ok) simp_all
qed

lemma rmdir_changes_within:
  assumes "QDir_rmdir p fs = (ok, fs')"
  shows "changes_within p fs fs'"
  using QDir_rmdir_spec(2) [OF assms]
    changes_within_delete [of p p fs' fs] changes_within_same [of fs' fs p]
  by (cases ok) simp_all

lemma changes_within_prefix:
  "prefix p p' \<Longrightarrow> changes_within p' fs fs' \<Longrightarrow> changes_within p fs fs'"
  unfolding changes_within_def by (meson prefix_order.trans)

lemma rmdir_target_changes_within:
  assumes "below tgt" "QDir_rmdir (tgt p) fs = (ok, fs')"
  shows "changes_within p fs fs'"
proof (rule changes_within_prefix)
  from assms(1) show "prefix p (tgt p)" by (simp add: below_def)
  from assms(2) show "changes_within (tgt p) fs fs'" by (rule rmdir_changes_within)
qed

lemma walk_unfold:
  assumes "walk leaf tgt (Suc depth) path fs = Some (ok, fs')"
  obtains (dir_failed) "\<not> ok"
      "for_each (\<lambda>child. walk leaf tgt depth (path @ [child]))
         (entryList fs path [NoDotAndDotDot, Dirs, Hidden]) fs = Some (False, fs')"
  | (file_failed) fs1 where "\<not> ok"
      "for_each (\<lambda>child. walk leaf tgt depth (path @ [child]))
         (entryList fs path [NoDotAndDotDot, Dirs, Hidden]) fs = Some (True, fs1)"
      "for_each (\<lambda>child fs'. Some (leaf (path @ [child]) fs'))
         (entryList fs1 path [NoDotAndDotDot, Files, Hidden]) fs1 = Some (False, fs')"
  | (finished) fs1 fs2 where
      "for_each (\<lambda>child. walk leaf tgt depth (path @ [child]))
         (entryList fs path [NoDotAndDotDot, Dirs, Hidden]) fs = Some (True, fs1)"
      "for_each (\<lambda>child fs'. Some (leaf (path @ [child]) fs'))
         (entryList fs1 path [NoDotAndDotDot, Files, Hidden]) fs1 = Some (True, fs2)"
      "QDir_rmdir (tgt path) fs2 = (ok, fs')"
  using assms by (auto split: option.splits if_splits)

lemma walk_changes_within:
  assumes leaf: "deletes_a_file mk leaf" and tgt: "below tgt"
  shows "walk leaf tgt depth path fs = Some (ok, fs') \<Longrightarrow> changes_within path fs fs'"
proof (induction depth arbitrary: path fs ok fs')
  case 0
  then show ?case by simp
next
  case (Suc depth)
  have dirs: "changes_within path s s'"
    if "for_each (\<lambda>child. walk leaf tgt depth (path @ [child])) xs s = Some (b, s')" for xs s b s'
    using changes_within_refl changes_within_trans _ that
  proof (rule for_each_rel)
    show "\<forall>x \<in> set xs. \<forall>s ok s'. walk leaf tgt depth (path @ [x]) s = Some (ok, s') \<longrightarrow>
            changes_within path s s'"
      using Suc.IH changes_within_child by blast
  qed
  have files: "changes_within path s s'"
    if "for_each (\<lambda>child fs'. Some (leaf (path @ [child]) fs')) xs s = Some (b, s')" for xs s b s'
    using changes_within_refl changes_within_trans _ that
  proof (rule for_each_rel)
    show "\<forall>x \<in> set xs. \<forall>s ok s'. Some (leaf (path @ [x]) s) = Some (ok, s') \<longrightarrow>
            changes_within path s s'"
      using leaf_changes_within [OF leaf] by auto
  qed
  from Suc.prems show ?case
  proof (cases rule: walk_unfold)
    case dir_failed
    from dirs [OF dir_failed(2)] show ?thesis .
  next
    case (file_failed fs1)
    from dirs [OF file_failed(2)] files [OF file_failed(3)]
    show ?thesis by (blast intro: changes_within_trans)
  next
    case (finished fs1 fs2)
    from dirs [OF finished(1)] files [OF finished(2)] rmdir_target_changes_within [OF tgt finished(3)]
    show ?thesis by (blast intro: changes_within_trans)
  qed
qed

subsection \<open>The order of the calls, and enough depth\<close>

text \<open>The length of the longest path of the filesystem.\<close>

definition height :: "filesystem \<Rightarrow> nat" where
  "height fs = foldr (\<lambda>(q, e) m. max (length q) m) (entries fs) 0"

lemma height_bound_aux: "(q, e) \<in> set es \<Longrightarrow> length q \<le> foldr (\<lambda>(q, e) m. max (length q) m) es 0"
  by (induction es) auto

lemma height_bound: "lookup fs q = Some e \<Longrightarrow> length q \<le> height fs"
  unfolding lookup_def height_def by (rule height_bound_aux) (rule map_of_SomeD)

lemma entryList_exists:
  "child \<in> set (entryList fs p filters) \<Longrightarrow> \<exists>e. lookup fs (p @ [child]) = Some e \<and> accepts filters e"
  by (auto simp: set_entryList listed_def split: if_splits)

lemma entryList_isDir: "child \<in> set (entryList fs p filters) \<Longrightarrow> isDir fs p"
  by (auto simp: set_entryList listed_def split: if_splits)

text \<open>
  The calls of a walk that meets no failure, read off the filesystem as it is before the
  walk: for each child directory in turn all the calls of its own walk, then one call for
  each file of the directory, then the \<open>rmdir\<close> of the last step.
\<close>

function removal_order ::
    "(path \<Rightarrow> call) \<Rightarrow> (path \<Rightarrow> path) \<Rightarrow> filesystem \<Rightarrow> path \<Rightarrow> (call \<times> bool) list" where
  "removal_order mk tgt fs path =
     concat (map (\<lambda>child. removal_order mk tgt fs (path @ [child]))
               (entryList fs path [NoDotAndDotDot, Dirs, Hidden])) @
     map (\<lambda>child. (mk (path @ [child]), True)) (entryList fs path [NoDotAndDotDot, Files, Hidden]) @
     [(Rmdir (tgt path), True)]"
  by pat_completeness auto
termination
proof (relation "measure (\<lambda>(mk, tgt, fs, path). Suc (height fs) - length path)")
  show "wf (measure (\<lambda>(mk, tgt, fs, path). Suc (height fs) - length path))" by simp
next
  fix mk :: "path \<Rightarrow> call" and tgt :: "path \<Rightarrow> path" and fs :: filesystem and path :: path
    and child :: string
  assume "child \<in> set (entryList fs path [NoDotAndDotDot, Dirs, Hidden])"
  then obtain e where "lookup fs (path @ [child]) = Some e" by (blast dest: entryList_exists)
  then have "length (path @ [child]) \<le> height fs" by (rule height_bound)
  then show "((mk, tgt, fs, path @ [child]), (mk, tgt, fs, path))
      \<in> measure (\<lambda>(mk, tgt, fs, path). Suc (height fs) - length path)"
    by simp
qed

declare removal_order.simps [simp del]

text \<open>No path of the filesystem is longer than \<open>m\<close>.\<close>

definition bounded :: "filesystem \<Rightarrow> nat \<Rightarrow> bool" where
  "bounded fs m = (\<forall>q e. lookup fs q = Some e \<longrightarrow> length q \<le> m)"

lemma bounded_height: "bounded fs (height fs)"
  by (simp add: bounded_def height_bound)

lemma bounded_changes_within: "changes_within p fs fs' \<Longrightarrow> bounded fs m \<Longrightarrow> bounded fs' m"
  unfolding changes_within_def bounded_def by (metis option.distinct(1))

lemma walk_total:
  assumes leaf: "deletes_a_file mk leaf" and tgt: "below tgt"
  shows "bounded fs m \<Longrightarrow> m < length path + depth \<Longrightarrow> 0 < depth \<Longrightarrow>
           \<exists>ok fs'. walk leaf tgt depth path fs = Some (ok, fs') \<and> bounded fs' m"
proof (induction depth arbitrary: path fs)
  case 0
  then show ?case by simp
next
  case (Suc depth)
  let ?dirs = "entryList fs path [NoDotAndDotDot, Dirs, Hidden]"
  have "\<exists>ok fs1. for_each (\<lambda>child. walk leaf tgt depth (path @ [child])) ?dirs fs = Some (ok, fs1) \<and>
          bounded fs1 m"
  proof (rule for_each_total)
    show "bounded fs m" by fact
    show "\<forall>x \<in> set ?dirs. \<forall>s. bounded s m \<longrightarrow>
            (\<exists>ok s'. walk leaf tgt depth (path @ [x]) s = Some (ok, s') \<and> bounded s' m)"
    proof (intro ballI allI impI)
      fix x s assume x: "x \<in> set ?dirs" and s: "bounded s m"
      from x obtain e where "lookup fs (path @ [x]) = Some e" by (blast dest: entryList_exists)
      with Suc.prems(1) have "length (path @ [x]) \<le> m" by (auto simp: bounded_def)
      with Suc.prems(2) have "0 < depth" "m < length (path @ [x]) + depth" by simp_all
      from Suc.IH [OF s this(2) this(1)]
      show "\<exists>ok s'. walk leaf tgt depth (path @ [x]) s = Some (ok, s') \<and> bounded s' m" .
    qed
  qed
  then obtain ok1 fs1 where d: "for_each (\<lambda>child. walk leaf tgt depth (path @ [child])) ?dirs fs = Some (ok1, fs1)"
    and b1: "bounded fs1 m" by blast
  let ?files = "entryList fs1 path [NoDotAndDotDot, Files, Hidden]"
  have "\<exists>ok fs2. for_each (\<lambda>child fs'. Some (leaf (path @ [child]) fs')) ?files fs1 = Some (ok, fs2) \<and>
          bounded fs2 m"
  proof (rule for_each_total)
    show "bounded fs1 m" by fact
    show "\<forall>x \<in> set ?files. \<forall>s. bounded s m \<longrightarrow>
            (\<exists>ok s'. Some (leaf (path @ [x]) s) = Some (ok, s') \<and> bounded s' m)"
    proof (intro ballI allI impI)
      fix x s assume s: "bounded s m"
      obtain ok s' where l: "leaf (path @ [x]) s = (ok, s')" by (cases "leaf (path @ [x]) s")
      from leaf_changes_within [OF leaf l] s have "bounded s' m" by (rule bounded_changes_within)
      with l show "\<exists>ok s'. Some (leaf (path @ [x]) s) = Some (ok, s') \<and> bounded s' m" by simp
    qed
  qed
  then obtain ok2 fs2 where f: "for_each (\<lambda>child fs'. Some (leaf (path @ [child]) fs')) ?files fs1 = Some (ok2, fs2)"
    and b2: "bounded fs2 m" by blast
  obtain ok3 fs3 where r: "QDir_rmdir (tgt path) fs2 = (ok3, fs3)" by (cases "QDir_rmdir (tgt path) fs2")
  from rmdir_target_changes_within [OF tgt r] b2 have b3: "bounded fs3 m" by (rule bounded_changes_within)
  from d f r b1 b2 b3 show ?case by (cases ok1; cases ok2) auto
qed

lemma walk_terminates:
  assumes "deletes_a_file mk leaf" "below tgt"
  shows "\<exists>ok fs'. walk leaf tgt (Suc (height fs)) path fs = Some (ok, fs')"
  using walk_total [OF assms bounded_height, of fs path "Suc (height fs)"] by auto

subsection \<open>Directories first, then files, then the directory\<close>

text \<open>Two filesystems with the same entries at and below \<open>p\<close>.\<close>

definition same_under :: "path \<Rightarrow> filesystem \<Rightarrow> filesystem \<Rightarrow> bool" where
  "same_under p fs fs' = (\<forall>q. prefix p q \<longrightarrow> lookup fs' q = lookup fs q)"

lemma prefix_same_length: "prefix a q \<Longrightarrow> prefix b q \<Longrightarrow> length a = length b \<Longrightarrow> a = b"
  by (auto simp: prefix_def append_eq_append_conv)

lemma prefix_siblings: "prefix (p @ [x]) q \<Longrightarrow> prefix (p @ [y]) q \<Longrightarrow> x = y"
  using prefix_same_length [of "p @ [x]" q "p @ [y]"] by simp

lemma listed_same:
  "lookup fs' p = lookup fs p \<Longrightarrow> (\<forall>child. lookup fs' (p @ [child]) = lookup fs (p @ [child])) \<Longrightarrow>
     listed fs' p filters = listed fs p filters"
  by (simp add: listed_def isDir_def)

lemma same_under_entryList:
  assumes "same_under p fs fs'"
  shows "entryList fs' p filters = entryList fs p filters"
proof (rule entryList_eqI, rule listed_same)
  from assms show "lookup fs' p = lookup fs p" by (simp add: same_under_def)
  from assms show "\<forall>child. lookup fs' (p @ [child]) = lookup fs (p @ [child])"
    by (simp add: same_under_def)
qed

lemma same_under_child: "same_under p fs fs' \<Longrightarrow> same_under (p @ [child]) fs fs'"
  unfolding same_under_def by (metis append_prefixD)

lemma removal_order_same:
  "same_under path fs fs' \<Longrightarrow> removal_order mk tgt fs' path = removal_order mk tgt fs path"
proof (induction mk tgt fs path rule: removal_order.induct)
  case (1 mk tgt fs path)
  note e = same_under_entryList [OF "1.prems"]
  have c: "removal_order mk tgt fs' (path @ [child]) = removal_order mk tgt fs (path @ [child])"
    if "child \<in> set (entryList fs path [NoDotAndDotDot, Dirs, Hidden])" for child
    using "1.IH" [OF that same_under_child [OF "1.prems"]] .
  have m: "concat (map (\<lambda>child. removal_order mk tgt fs' (path @ [child]))
                 (entryList fs path [NoDotAndDotDot, Dirs, Hidden])) =
           concat (map (\<lambda>child. removal_order mk tgt fs (path @ [child]))
                 (entryList fs path [NoDotAndDotDot, Dirs, Hidden]))"
    by (rule arg_cong [where f = concat], rule map_cong) (simp_all add: c)
  show ?case
    by (subst removal_order.simps [of mk tgt fs' path], subst removal_order.simps [of mk tgt fs path])
      (simp only: e m)
qed

lemma same_under_step:
  assumes "same_under (p @ [y]) fs s" "changes_within (p @ [x]) s s1" "x \<noteq> y"
  shows "same_under (p @ [y]) fs s1"
  unfolding same_under_def
proof (intro allI impI)
  fix q assume q: "prefix (p @ [y]) q"
  with assms(3) have "\<not> prefix (p @ [x]) q" by (blast dest: prefix_siblings)
  with assms(2) have "lookup s1 q = lookup s q" by (auto simp: changes_within_def)
  with assms(1) q show "lookup s1 q = lookup fs q" by (simp add: same_under_def)
qed

lemma files_calls:
  assumes leaf: "deletes_a_file mk leaf"
  shows "for_each (\<lambda>child fs'. Some (leaf (path @ [child]) fs')) xs s = Some (True, s') \<Longrightarrow>
           calls s' = calls s @ map (\<lambda>child. (mk (path @ [child]), True)) xs"
proof (induction xs arbitrary: s)
  case Nil
  then show ?case by simp
next
  case (Cons x xs)
  from leaf obtain ok s1 where l: "leaf (path @ [x]) s = (ok, s1)"
    and c: "calls s1 = calls s @ [(mk (path @ [x]), ok)]"
    unfolding deletes_a_file_def by blast
  from Cons.prems l have ok: ok and r: "for_each (\<lambda>child fs'. Some (leaf (path @ [child]) fs')) xs s1 = Some (True, s')"
    by (auto split: if_splits)
  from Cons.IH [OF r] c ok show ?case by simp
qed

lemma dirs_calls:
  assumes IH: "\<And>p s s'. walk leaf tgt depth p s = Some (True, s') \<Longrightarrow> calls s' = calls s @ removal_order mk tgt s p"
    and leaf: "deletes_a_file mk leaf" and tgt: "below tgt"
  shows "distinct xs \<Longrightarrow> \<forall>x \<in> set xs. same_under (path @ [x]) fs s \<Longrightarrow>
           for_each (\<lambda>child. walk leaf tgt depth (path @ [child])) xs s = Some (True, s') \<Longrightarrow>
           calls s' = calls s @ concat (map (\<lambda>child. removal_order mk tgt fs (path @ [child])) xs)"
proof (induction xs arbitrary: s)
  case Nil
  then show ?case by simp
next
  case (Cons x xs)
  from Cons.prems(3) obtain ok1 s1 where w: "walk leaf tgt depth (path @ [x]) s = Some (ok1, s1)"
    by (auto split: option.splits)
  with Cons.prems(3) have ok1: ok1
    and r: "for_each (\<lambda>child. walk leaf tgt depth (path @ [child])) xs s1 = Some (True, s')"
    by (auto split: if_splits)
  from IH [of "path @ [x]" s s1] w ok1
  have "calls s1 = calls s @ removal_order mk tgt s (path @ [x])" by simp
  moreover from Cons.prems(2) have "removal_order mk tgt s (path @ [x]) = removal_order mk tgt fs (path @ [x])"
    by (simp add: removal_order_same)
  ultimately have c1: "calls s1 = calls s @ removal_order mk tgt fs (path @ [x])" by simp
  from walk_changes_within [OF leaf tgt w] have cw: "changes_within (path @ [x]) s s1" .
  have "\<forall>y \<in> set xs. same_under (path @ [y]) fs s1"
  proof
    fix y assume y: "y \<in> set xs"
    with Cons.prems(1) have "x \<noteq> y" by auto
    moreover from Cons.prems(2) y have "same_under (path @ [y]) fs s" by simp
    ultimately show "same_under (path @ [y]) fs s1" using cw by (blast intro: same_under_step)
  qed
  from Cons.IH [OF _ this r] Cons.prems(1) c1 show ?case by simp
qed

text \<open>
  Every entry is as before, or lay at or below one of the named children of \<open>p\<close>
  and is gone.
\<close>

definition removed_below :: "path \<Rightarrow> string set \<Rightarrow> filesystem \<Rightarrow> filesystem \<Rightarrow> bool" where
  "removed_below p names fs fs' =
     (\<forall>q. lookup fs' q = lookup fs q \<or> (lookup fs' q = None \<and> (\<exists>x \<in> names. prefix (p @ [x]) q)))"

lemma dirs_removed_below:
  assumes leaf: "deletes_a_file mk leaf" and tgt: "below tgt"
    and run: "for_each (\<lambda>child. walk leaf tgt depth (path @ [child])) xs s = Some (ok, s')"
  shows "removed_below path (set xs) s s'"
proof (rule for_each_rel [where R = "removed_below path (set xs)", OF _ _ _ run])
  show "removed_below path (set xs) s s" for s by (simp add: removed_below_def)
  show "removed_below path (set xs) a b \<Longrightarrow> removed_below path (set xs) b c \<Longrightarrow>
          removed_below path (set xs) a c" for a b c
    unfolding removed_below_def by metis
  show "\<forall>x \<in> set xs. \<forall>s ok s'. walk leaf tgt depth (path @ [x]) s = Some (ok, s') \<longrightarrow>
          removed_below path (set xs) s s'"
  proof (intro ballI allI impI)
    fix x s ok s' assume x: "x \<in> set xs" and w: "walk leaf tgt depth (path @ [x]) s = Some (ok, s')"
    from walk_changes_within [OF leaf tgt w] x show "removed_below path (set xs) s s'"
      unfolding changes_within_def removed_below_def by blast
  qed
qed

lemma accepts_Dirs: "accepts [NoDotAndDotDot, Dirs, Hidden] e \<longleftrightarrow> (\<exists>h l. e = Directory h l)"
  by (cases e) (simp_all add: accepts_def)

lemma accepts_Files: "accepts [NoDotAndDotDot, Files, Hidden] e \<longleftrightarrow> (\<exists>h l b. e = File h l b)"
  by (cases e) (simp_all add: accepts_def)

lemma not_prefix_child: "\<not> prefix (p @ [x]) p"
  by (auto simp: prefix_def)

lemma files_after_dirs:
  assumes "removed_below path (set (entryList fs path [NoDotAndDotDot, Dirs, Hidden])) fs fs1"
  shows "entryList fs1 path [NoDotAndDotDot, Files, Hidden] =
         entryList fs path [NoDotAndDotDot, Files, Hidden]"
proof (rule entryList_eqI)
  let ?D = "[NoDotAndDotDot, Dirs, Hidden]" and ?F = "[NoDotAndDotDot, Files, Hidden]"
  from assms have p: "lookup fs1 path = lookup fs path"
    by (auto simp: removed_below_def not_prefix_child)
  then have d: "isDir fs1 path = isDir fs path" by (simp add: isDir_def)
  have "(\<exists>e. lookup fs1 (path @ [c]) = Some e \<and> accepts ?F e) \<longleftrightarrow>
        (\<exists>e. lookup fs (path @ [c]) = Some e \<and> accepts ?F e)" for c
  proof
    assume "\<exists>e. lookup fs1 (path @ [c]) = Some e \<and> accepts ?F e"
    with assms show "\<exists>e. lookup fs (path @ [c]) = Some e \<and> accepts ?F e"
      unfolding removed_below_def by (metis option.distinct(1))
  next
    assume "\<exists>e. lookup fs (path @ [c]) = Some e \<and> accepts ?F e"
    then obtain e where e: "lookup fs (path @ [c]) = Some e" "accepts ?F e" by blast
    have "lookup fs1 (path @ [c]) = lookup fs (path @ [c])"
    proof (rule ccontr)
      assume "lookup fs1 (path @ [c]) \<noteq> lookup fs (path @ [c])"
      with assms obtain x where x: "x \<in> set (entryList fs path ?D)" "prefix (path @ [x]) (path @ [c])"
        unfolding removed_below_def by blast
      from x(2) have "x = c" by (auto simp: prefix_def append_eq_append_conv2 Cons_eq_append_conv)
      with x(1) e(1) have "accepts ?D e" by (auto dest: entryList_exists)
      with e(2) show False by (auto simp: accepts_Dirs accepts_Files)
    qed
    with e show "\<exists>e. lookup fs1 (path @ [c]) = Some e \<and> accepts ?F e" by simp
  qed
  with d show "listed fs1 path ?F = listed fs path ?F" by (simp add: listed_def)
qed

lemma same_under_refl: "same_under p fs fs"
  by (simp add: same_under_def)

lemma walk_calls:
  assumes leaf: "deletes_a_file mk leaf" and tgt: "below tgt"
  shows "walk leaf tgt depth path fs = Some (True, fs') \<Longrightarrow> calls fs' = calls fs @ removal_order mk tgt fs path"
proof (induction depth arbitrary: path fs fs')
  case 0
  then show ?case by simp
next
  case (Suc depth)
  let ?D = "[NoDotAndDotDot, Dirs, Hidden]" and ?F = "[NoDotAndDotDot, Files, Hidden]"
  from Suc.prems show ?case
  proof (cases rule: walk_unfold)
    case dir_failed
    then show ?thesis by simp
  next
    case (file_failed fs1)
    then show ?thesis by simp
  next
    case (finished fs1 fs2)
    have su: "\<forall>x \<in> set (entryList fs path ?D). same_under (path @ [x]) fs fs"
      by (simp add: same_under_refl)
    have "calls fs1 = calls fs @ concat (map (\<lambda>child. removal_order mk tgt fs (path @ [child])) (entryList fs path ?D))"
      using Suc.IH leaf tgt distinct_entryList su finished(1) by (rule dirs_calls)
    moreover have "entryList fs1 path ?F = entryList fs path ?F"
      using dirs_removed_below [OF leaf tgt finished(1)] by (rule files_after_dirs)
    with files_calls [OF leaf finished(2)]
    have "calls fs2 = calls fs1 @ map (\<lambda>child. (mk (path @ [child]), True)) (entryList fs path ?F)"
      by simp
    moreover from QDir_rmdir_spec(1) [OF finished(3)]
    have "calls fs' = calls fs2 @ [(Rmdir (tgt path), True)]" .
    ultimately show ?thesis
      by (subst removal_order.simps) simp
  qed
qed

subsection \<open>What a successful walk leaves, and what a copy adds\<close>

lemma walk_success:
  assumes leaf: "deletes_a_file mk leaf" and run: "walk leaf (\<lambda>p. p) depth path fs = Some (True, fs')"
  shows "\<exists>h. lookup fs path = Some (Directory h False)"
    and "lookup fs' path = None"
    and "lookup fs' (path @ [child]) = None"
proof -
  from run obtain n where depth: "depth = Suc n" by (cases depth) auto
  from run [unfolded depth] show "\<exists>h. lookup fs path = Some (Directory h False)"
    "lookup fs' path = None" "lookup fs' (path @ [child]) = None"
  proof (atomize (full), cases rule: walk_unfold)
    case dir_failed
    then show "(\<exists>h. lookup fs path = Some (Directory h False)) \<and> lookup fs' path = None \<and>
        lookup fs' (path @ [child]) = None" by simp
  next
    case (file_failed fs1)
    then show "(\<exists>h. lookup fs path = Some (Directory h False)) \<and> lookup fs' path = None \<and>
        lookup fs' (path @ [child]) = None" by simp
  next
    case (finished fs1 fs2)
    have "changes_within path fs fs1"
      using dirs_removed_below [OF leaf below_same finished(1)]
      unfolding changes_within_def removed_below_def by (metis append_prefixD)
    moreover have "changes_within path fs1 fs2"
      using changes_within_refl changes_within_trans _ finished(2)
    proof (rule for_each_rel)
      show "\<forall>x \<in> set (entryList fs1 path [NoDotAndDotDot, Files, Hidden]). \<forall>s ok s'.
              Some (leaf (path @ [x]) s) = Some (ok, s') \<longrightarrow> changes_within path s s'"
        using leaf_changes_within [OF leaf] by auto
    qed
    ultimately have cw: "changes_within path fs fs2" by (rule changes_within_trans)
    from QDir_rmdir_spec(3) [OF finished(3)] obtain h
      where h: "lookup fs2 path = Some (Directory h False)"
        and c: "\<forall>child. lookup fs2 (path @ [child]) = None" by blast
    from cw h have "lookup fs path = Some (Directory h False)"
      unfolding changes_within_def by (metis option.distinct(1))
    moreover from QDir_rmdir_spec(2) [OF finished(3)] have "lookup fs' = (lookup fs2)(path := None)"
      by simp
    ultimately show "(\<exists>h. lookup fs path = Some (Directory h False)) \<and> lookup fs' path = None \<and>
        lookup fs' (path @ [child]) = None" using c by simp
  qed
qed

lemma removal_order_last: "(Rmdir (tgt path), True) \<in> set (removal_order mk tgt fs path)"
  by (subst removal_order.simps) simp

lemma removal_order_file:
  assumes "isDir fs path" "lookup fs (path @ [child]) = Some (File h l b)"
  shows "(mk (path @ [child]), True) \<in> set (removal_order mk tgt fs path)"
proof -
  from assms have "child \<in> set (entryList fs path [NoDotAndDotDot, Files, Hidden])"
    by (simp add: set_entryList listed_def accepts_Files)
  then show ?thesis by (subst removal_order.simps) auto
qed

lemma removal_order_dir:
  assumes "isDir fs path" "lookup fs (path @ [child]) = Some (Directory h l)"
  shows "(Rmdir (tgt (path @ [child])), True) \<in> set (removal_order mk tgt fs path)"
proof -
  from assms have "child \<in> set (entryList fs path [NoDotAndDotDot, Dirs, Hidden])"
    by (simp add: set_entryList listed_def accepts_Dirs)
  with removal_order_last [of tgt "path @ [child]" mk fs] show ?thesis
    by (subst removal_order.simps) auto
qed

text \<open>Every entry is as before, or is new and has its path in \<open>A\<close>.\<close>

definition adds_only :: "path set \<Rightarrow> filesystem \<Rightarrow> filesystem \<Rightarrow> bool" where
  "adds_only A fs fs' = (\<forall>q. lookup fs' q = lookup fs q \<or> (lookup fs q = None \<and> q \<in> A))"

lemma adds_only_refl: "adds_only A fs fs"
  by (simp add: adds_only_def)

lemma adds_only_trans: "adds_only A a b \<Longrightarrow> adds_only A b c \<Longrightarrow> adds_only A a c"
  unfolding adds_only_def by metis

lemma adds_only_mono: "adds_only A fs fs' \<Longrightarrow> A \<subseteq> B \<Longrightarrow> adds_only B fs fs'"
  unfolding adds_only_def by blast

lemma adds_only_keeps: "adds_only A fs fs' \<Longrightarrow> lookup fs q = Some e \<Longrightarrow> lookup fs' q = Some e"
  unfolding adds_only_def by (metis option.distinct(1))

lemma adds_only_outside: "adds_only A fs fs' \<Longrightarrow> q \<notin> A \<Longrightarrow> lookup fs' q = lookup fs q"
  unfolding adds_only_def by blast

lemma lookup_append:
  "lookup (fs\<lparr>entries := entries fs @ new\<rparr>) q =
     (case lookup fs q of None \<Rightarrow> map_of new q | Some e \<Rightarrow> Some e)"
  by (simp add: lookup_def map_add_def split: option.splits)

lemma ancestors_prefix: "q \<in> set (ancestors p) \<Longrightarrow> prefix q p"
  by (auto simp: ancestors_def take_is_prefix)

lemma QDir_mkpath_adds: "adds_only (set (ancestors p)) fs (snd (QDir_mkpath p fs))"
proof -
  let ?new = "map (\<lambda>q. (q, Directory (dot_hidden fs \<and> dot_name q) False))
                (filter (\<lambda>q. lookup fs q = None) (ancestors p))"
  have n: "map_of ?new q = None" if "q \<notin> set (ancestors p)" for q
    using that by (simp add: map_of_eq_None_iff image_image)
  have "lookup (fs\<lparr>entries := entries fs @ ?new\<rparr>) q = lookup fs q \<or>
        (lookup fs q = None \<and> q \<in> set (ancestors p))" for q
    using n [of q] by (cases "lookup fs q") (auto simp: lookup_append)
  then show ?thesis
    unfolding adds_only_def QDir_mkpath_def by simp
qed

lemma QFile_copy_adds: "adds_only {newName} fs (snd (QFile_copy fileName newName fs))"
  unfolding adds_only_def QFile_copy_def
  by (cases "lookup fs fileName"; cases "the (lookup fs fileName)")
    (auto simp: lookup_append split: option.splits)

lemma QFile_copy_failed: "QFile_copy fileName newName fs = (False, fs') \<Longrightarrow>
    entries fs' = entries fs \<and> calls fs' = calls fs @ [(Copy fileName newName, False)]"
  unfolding QFile_copy_def
  by (cases "lookup fs fileName"; cases "the (lookup fs fileName)") (auto split: if_splits)

text \<open>
  \<open>CopyRecursive\<close> on the paths that its two path names resolve to.
\<close>

definition last_name :: "path \<Rightarrow> path" where
  "last_name source = (if source = [] then [] else [last source])"

primrec copy_walk :: "nat \<Rightarrow> path \<Rightarrow> path \<Rightarrow> filesystem \<Rightarrow> (bool \<times> filesystem) option" where
  "copy_walk 0 source destination fs = None"
| "copy_walk (Suc depth) source destination fs =
     (let dir_name = last_name source;
          dest_path = destination @ dir_name;
          fs0 = snd (QDir_mkpath dest_path fs)
      in case for_each (\<lambda>child. copy_walk depth (source @ [child]) dest_path)
                (entryList fs0 source [NoDotAndDotDot, Dirs]) fs0 of
           None \<Rightarrow> None
         | Some (ok, fs1) \<Rightarrow>
             if \<not> ok then Some (False, fs1)
             else
               (case for_each (\<lambda>child fs'. Some (QFile_copy (source @ [child]) (dest_path @ [child]) fs'))
                       (entryList fs1 source [NoDotAndDotDot, Files]) fs1 of
                  None \<Rightarrow> None
                | Some (ok, fs2) \<Rightarrow> if \<not> ok then Some (False, fs2) else Some (True, fs2)))"

lemma last_name_location: "last_name (location cwd source) = section_last source"
  by (cases source) (simp_all add: last_name_def section_last_def)

lemma section_last_slash [simp]: "section_last (slash source child) = [child]"
  by (cases source) (simp_all add: section_last_def slash_def)

lemma CopyRecursive_walk:
  "CopyRecursive cwd depth source destination fs =
     copy_walk depth (location cwd source) (location cwd destination) fs"
proof (induction depth arbitrary: source destination fs)
  case 0
  show ?case by simp
next
  case (Suc depth)
  have "(\<lambda>child. CopyRecursive cwd depth (slash source child) (extend destination (section_last source))) =
        (\<lambda>child. copy_walk depth (location cwd source @ [child])
                   (location cwd destination @ section_last source))"
    by (intro ext) (simp add: Suc)
  then show ?case by (simp add: Let_def last_name_location cong: option.case_cong if_cong)
qed

lemma last_name_child [simp]: "last_name (source @ [child]) = [child]"
  by (simp add: last_name_def)

text \<open>The paths above, at and below \<open>p\<close>.\<close>

definition near :: "path \<Rightarrow> path set" where
  "near p = {q. prefix q p \<or> prefix p q}"

lemma near_child: "near (p @ [child]) \<subseteq> near p"
  unfolding near_def by (auto dest: append_prefixD simp: prefix_snoc)

lemma copy_walk_unfold:
  assumes "copy_walk (Suc depth) source destination fs = Some (ok, fs')"
  obtains fs1 where
      "for_each (\<lambda>child. copy_walk depth (source @ [child]) (destination @ last_name source))
         (entryList (snd (QDir_mkpath (destination @ last_name source) fs)) source [NoDotAndDotDot, Dirs])
         (snd (QDir_mkpath (destination @ last_name source) fs)) = Some (True, fs1)"
      "for_each (\<lambda>child fs'. Some (QFile_copy (source @ [child]) (destination @ last_name source @ [child]) fs'))
         (entryList fs1 source [NoDotAndDotDot, Files]) fs1 = Some (ok, fs')"
  | "\<not> ok"
      "for_each (\<lambda>child. copy_walk depth (source @ [child]) (destination @ last_name source))
         (entryList (snd (QDir_mkpath (destination @ last_name source) fs)) source [NoDotAndDotDot, Dirs])
         (snd (QDir_mkpath (destination @ last_name source) fs)) = Some (False, fs')"
  using assms by (auto simp: Let_def split: option.splits if_splits)

lemma copy_walk_adds:
  "copy_walk depth source destination fs = Some (ok, fs') \<Longrightarrow>
     adds_only (near (destination @ last_name source)) fs fs'"
proof (induction depth arbitrary: source destination fs ok fs')
  case 0
  then show ?case by simp
next
  case (Suc depth)
  let ?dp = "destination @ last_name source"
  let ?fs0 = "snd (QDir_mkpath ?dp fs)"
  have m: "adds_only (near ?dp) fs ?fs0"
    using QDir_mkpath_adds by (rule adds_only_mono) (auto simp: near_def dest: ancestors_prefix)
  have dirs: "adds_only (near ?dp) s s'"
    if "for_each (\<lambda>child. copy_walk depth (source @ [child]) ?dp) xs s = Some (b, s')" for xs s b s'
    using adds_only_refl adds_only_trans _ that
  proof (rule for_each_rel)
    show "\<forall>x \<in> set xs. \<forall>s ok s'. copy_walk depth (source @ [x]) ?dp s = Some (ok, s') \<longrightarrow>
            adds_only (near ?dp) s s'"
    proof (intro ballI allI impI)
      fix x s ok s' assume "copy_walk depth (source @ [x]) ?dp s = Some (ok, s')"
      from Suc.IH [OF this] have "adds_only (near (?dp @ [x])) s s'" by simp
      then show "adds_only (near ?dp) s s'" using near_child by (rule adds_only_mono)
    qed
  qed
  have files: "adds_only (near ?dp) s s'"
    if "for_each (\<lambda>child fs'. Some (QFile_copy (source @ [child]) (?dp @ [child]) fs')) xs s = Some (b, s')"
    for xs s b s'
    using adds_only_refl adds_only_trans _ that
  proof (rule for_each_rel)
    show "\<forall>x \<in> set xs. \<forall>s ok s'. Some (QFile_copy (source @ [x]) (?dp @ [x]) s) = Some (ok, s') \<longrightarrow>
            adds_only (near ?dp) s s'"
    proof (intro ballI allI impI)
      fix x s ok s' assume "Some (QFile_copy (source @ [x]) (?dp @ [x]) s) = Some (ok, s')"
      then have "s' = snd (QFile_copy (source @ [x]) (?dp @ [x]) s)" by (metis option.inject snd_conv)
      with QFile_copy_adds [of "?dp @ [x]" s "source @ [x]"]
      show "adds_only (near ?dp) s s'" by (auto intro: adds_only_mono simp: near_def)
    qed
  qed
  from Suc.prems show ?case
  proof (cases rule: copy_walk_unfold)
    case (1 fs1)
    from m dirs [OF 1(1)] files [of _ fs1 ok fs'] 1(2) show ?thesis
      by (auto intro: adds_only_trans)
  next
    case 2
    from m dirs [OF 2(2)] show ?thesis by (rule adds_only_trans)
  qed
qed

subsection \<open>A copy leaves hidden children out\<close>

lemma accepts_plain_Dirs: "accepts [NoDotAndDotDot, Dirs] e \<Longrightarrow> \<not> hidden e"
  by (simp add: accepts_def)

lemma accepts_plain_Files: "accepts [NoDotAndDotDot, Files] e \<Longrightarrow> \<not> hidden e"
  by (simp add: accepts_def)

lemma not_near_sibling:
  assumes "prefix (p @ [child]) q" "x \<noteq> child"
  shows "q \<notin> near (p @ [x])"
proof
  assume "q \<in> near (p @ [x])"
  then consider "prefix q (p @ [x])" | "prefix (p @ [x]) q" by (auto simp: near_def)
  then show False
  proof cases
    case 1
    with assms(1) have "prefix (p @ [child]) (p @ [x])" by (rule prefix_order.trans)
    then have "child = x" by (auto simp: prefix_def append_eq_append_conv2 Cons_eq_append_conv)
    with assms(2) show False by simp
  next
    case 2
    with assms(1) have "x = child" by (blast dest: prefix_siblings)
    with assms(2) show False by simp
  qed
qed

lemma copy_walk_skips_hidden:
  assumes run: "copy_walk depth source destination fs = Some (ok, fs')"
    and h: "lookup fs (source @ [child]) = Some e" "hidden e"
    and q: "prefix (destination @ last_name source @ [child]) q" "lookup fs q = None"
  shows "lookup fs' q = None"
proof -
  from run obtain n where depth: "depth = Suc n" by (cases depth) auto
  let ?dp = "destination @ last_name source"
  let ?fs0 = "snd (QDir_mkpath ?dp fs)"
  define J where "J s \<longleftrightarrow> lookup s (source @ [child]) = Some e \<and> lookup s q = None" for s
  from q(1) have pq: "prefix (?dp @ [child]) q" by simp
  have "q \<notin> set (ancestors ?dp)"
  proof
    assume "q \<in> set (ancestors ?dp)"
    then have "prefix q ?dp" by (rule ancestors_prefix)
    with pq have "prefix (?dp @ [child]) ?dp" by (rule prefix_order.trans)
    then show False by (simp add: not_prefix_child)
  qed
  with QDir_mkpath_adds [of ?dp fs] h(1) q(2) have J0: "J ?fs0"
    by (simp add: J_def adds_only_keeps adds_only_outside)
  have keep: "J s'" if "J s" "adds_only A s s'" "q \<notin> A" for s s' A
    using that by (simp add: J_def adds_only_keeps adds_only_outside)
  have dirs: "J s \<longrightarrow> J s'"
    if "for_each (\<lambda>child. copy_walk n (source @ [child]) ?dp) xs s = Some (b, s')"
      and "child \<notin> set xs" for xs s b s'
  proof (rule for_each_rel [where R = "\<lambda>s s'. J s \<longrightarrow> J s'", OF _ _ _ that(1)])
    show "\<forall>x \<in> set xs. \<forall>s ok s'. copy_walk n (source @ [x]) ?dp s = Some (ok, s') \<longrightarrow>
            J s \<longrightarrow> J s'"
    proof (intro ballI allI impI)
      fix x s ok s' assume x: "x \<in> set xs" and c: "copy_walk n (source @ [x]) ?dp s = Some (ok, s')"
        and j: "J s"
      from copy_walk_adds [OF c] have "adds_only (near (?dp @ [x])) s s'" by simp
      moreover from x that(2) have "x \<noteq> child" by auto
      with pq have "q \<notin> near (?dp @ [x])" by (rule not_near_sibling)
      ultimately show "J s'" using j keep by blast
    qed
  qed simp_all
  have files: "J s \<longrightarrow> J s'"
    if "for_each (\<lambda>child fs'. Some (QFile_copy (source @ [child]) (?dp @ [child]) fs')) xs s = Some (b, s')"
      and "child \<notin> set xs" for xs s b s'
  proof (rule for_each_rel [where R = "\<lambda>s s'. J s \<longrightarrow> J s'", OF _ _ _ that(1)])
    show "\<forall>x \<in> set xs. \<forall>s ok s'. Some (QFile_copy (source @ [x]) (?dp @ [x]) s) = Some (ok, s') \<longrightarrow>
            J s \<longrightarrow> J s'"
    proof (intro ballI allI impI)
      fix x s ok s' assume x: "x \<in> set xs"
        and c: "Some (QFile_copy (source @ [x]) (?dp @ [x]) s) = Some (ok, s')" and j: "J s"
      from c have "s' = snd (QFile_copy (source @ [x]) (?dp @ [x]) s)" by (metis option.inject snd_conv)
      with QFile_copy_adds [of "?dp @ [x]" s "source @ [x]"] have "adds_only {?dp @ [x]} s s'" by simp
      moreover from x that(2) have "x \<noteq> child" by auto
      with pq have "q \<notin> near (?dp @ [x])" by (rule not_near_sibling)
      then have "q \<notin> {?dp @ [x]}" by (auto simp: near_def)
      ultimately show "J s'" using j keep by blast
    qed
  qed simp_all
  have skip: "child \<notin> set (entryList s source filters)"
    if "J s" "\<And>e. accepts filters e \<Longrightarrow> \<not> hidden e" for s filters
  proof
    assume "child \<in> set (entryList s source filters)"
    then obtain e' where "lookup s (source @ [child]) = Some e'" "accepts filters e'"
      by (blast dest: entryList_exists)
    with that h(2) show False by (auto simp: J_def)
  qed
  from run [unfolded depth] show ?thesis
  proof (cases rule: copy_walk_unfold)
    case (1 fs1)
    from dirs [OF 1(1) skip [OF J0 accepts_plain_Dirs]] J0 have J1: "J fs1" by simp
    have "for_each (\<lambda>child fs'. Some (QFile_copy (source @ [child]) (?dp @ [child]) fs'))
            (entryList fs1 source [NoDotAndDotDot, Files]) fs1 = Some (ok, fs')"
      using 1(2) by simp
    from files [OF this skip [OF J1 accepts_plain_Files]] J1 show ?thesis by (simp add: J_def)
  next
    case 2
    from dirs [OF 2(2) skip [OF J0 accepts_plain_Dirs]] J0 show ?thesis by (simp add: J_def)
  qed
qed

lemma run_the: "map_option fst x = Some b \<Longrightarrow> x = Some (b, snd (the x))"
  by (cases x) auto

lemma run_pair: "fst x = b \<Longrightarrow> x = (b, snd x)"
  by auto

lemma isDir_parent: "\<exists>h. lookup fs path = Some (Directory h False) \<Longrightarrow> isDir fs path"
  by (auto simp: isDir_def)

lemma walk_visits_child:
  assumes leaf: "deletes_a_file mk leaf" and run: "walk leaf (\<lambda>p. p) depth path fs = Some (True, fs')"
    and e: "lookup fs (path @ [child]) = Some e"
  shows "(if is_File e then (mk (path @ [child]), True) else (Rmdir (path @ [child]), True)) \<in> set (calls fs')"
proof -
  from walk_success(1) [OF leaf run] have d: "isDir fs path" by (rule isDir_parent)
  have "(if is_File e then (mk (path @ [child]), True) else (Rmdir (path @ [child]), True))
          \<in> set (removal_order mk (\<lambda>p. p) fs path)"
    using removal_order_file [OF d, where child = child and mk = mk and tgt = "\<lambda>p. p"]
      removal_order_dir [OF d, where child = child and mk = mk and tgt = "\<lambda>p. p"] e
    by (cases e) simp_all
  with walk_calls [OF leaf below_same run] show ?thesis by simp
qed

lemma removal_order_all_True: "c \<in> set (removal_order mk tgt fs path) \<Longrightarrow> snd c"
proof (induction mk tgt fs path arbitrary: c rule: removal_order.induct)
  case (1 mk tgt fs path)
  from "1.prems" show ?case
    by (subst (asm) removal_order.simps) (auto dest: "1.IH")
qed

text \<open>Every entry lies in a directory: the paths above it are directories.\<close>

definition closed :: "filesystem \<Rightarrow> bool" where
  "closed fs = list_all (\<lambda>(q, e). list_all (\<lambda>i. isDir fs (take i q)) [0..<length q]) (entries fs)"

lemma closed_above:
  assumes "closed fs" "lookup fs (p @ r) = Some e" "r \<noteq> []"
  shows "isDir fs p"
proof -
  from assms(2) have "(p @ r, e) \<in> set (entries fs)" by (auto simp: lookup_def dest: map_of_SomeD)
  with assms(1) have "\<forall>i < length (p @ r). isDir fs (take i (p @ r))"
    by (auto simp: closed_def list_all_iff)
  moreover from assms(3) have "length p < length (p @ r)" by simp
  ultimately have "isDir fs (take (length p) (p @ r))" by blast
  then show ?thesis by simp
qed

lemma closed_missing:
  assumes "closed fs" "\<not> isDir fs p" "r \<noteq> []"
  shows "lookup fs (p @ r) = None"
proof (rule ccontr)
  assume "lookup fs (p @ r) \<noteq> None"
  then obtain e where "lookup fs (p @ r) = Some e" by blast
  from closed_above [OF assms(1) this assms(3)] assms(2) show False by simp
qed

lemma missing_rmdir_target:
  assumes "lookup fs (location cwd path) = None" "isAbsolute path \<or> closed fs"
  shows "lookup fs (location cwd (QDir_filePath path path)) = None"
proof (cases path)
  case (Absolute ns)
  with assms(1) show ?thesis by simp
next
  case (Relative n ns)
  with assms have c: "closed fs" and "\<not> isDir fs (cwd @ n # ns)" by (simp_all add: isDir_def)
  then have "lookup fs ((cwd @ n # ns) @ n # ns) = None" by (intro closed_missing) simp_all
  with Relative show ?thesis by simp
qed

lemma RemoveRecursive_missing:
  assumes "lookup fs (location cwd path) = None" "isAbsolute path \<or> closed fs"
  shows "RemoveRecursive cwd (Suc depth) path fs =
           Some (False, called (Rmdir (location cwd (QDir_filePath path path))) False fs)"
proof -
  from assms(1) have "\<not> isDir fs (location cwd path)" by (simp add: isDir_def)
  then have "entryList fs (location cwd path) filters = []" for filters by (simp add: entryList_def)
  moreover from missing_rmdir_target [OF assms]
  have "QDir_rmdir (location cwd (QDir_filePath path path)) fs =
          (False, called (Rmdir (location cwd (QDir_filePath path path))) False fs)"
    by (simp add: QDir_rmdir_def)
  ultimately show ?thesis by simp
qed

lemma QFile_remove_failed:
  "QFile_remove p fs = (False, fs') \<Longrightarrow>
     entries fs' = entries fs \<and> calls fs' = calls fs @ [(Remove p, False)]"
  unfolding QFile_remove_def
  by (cases "lookup fs p"; cases "the (lookup fs p)") (auto split: if_splits)

lemma QFile_moveToTrash_failed:
  "QFile_moveToTrash p fs = (False, fs') \<Longrightarrow>
     entries fs' = entries fs \<and> trash fs' = trash fs \<and>
     calls fs' = calls fs @ [(MoveToTrash p, False)]"
  unfolding QFile_moveToTrash_def
  by (cases "lookup fs p"; cases "the (lookup fs p)") (auto split: if_splits)

subsection \<open>More depth changes nothing\<close>

text \<open>
  Once a function returns at some depth, it returns the same at every greater depth: the
  depth is a bound on the recursion and no part of the result.
\<close>

lemma for_each_mono:
  assumes "\<forall>x \<in> set xs. \<forall>s r. body x s = Some r \<longrightarrow> body' x s = Some r"
    and "for_each body xs s = Some r"
  shows "for_each body' xs s = Some r"
  using assms
proof (induction xs arbitrary: s)
  case Nil
  then show ?case by simp
next
  case (Cons x xs)
  from Cons.prems(2) obtain ok1 s1 where b: "body x s = Some (ok1, s1)"
    by (auto split: option.splits)
  with Cons.prems(1) have b': "body' x s = Some (ok1, s1)" by simp
  show ?case
  proof (cases ok1)
    case True
    with b Cons.prems(2) have "for_each body xs s1 = Some r" by simp
    with Cons.IH Cons.prems(1) have "for_each body' xs s1 = Some r" by simp
    with b' True show ?thesis by simp
  next
    case False
    with b Cons.prems(2) have "r = (False, s1)" by simp
    with b' False show ?thesis by simp
  qed
qed

lemma walk_Suc:
  "walk leaf tgt depth path fs = Some r \<Longrightarrow> walk leaf tgt (Suc depth) path fs = Some r"
proof (induction depth arbitrary: path fs r)
  case 0
  then show ?case by simp
next
  case (Suc depth)
  let ?dirs = "entryList fs path [NoDotAndDotDot, Dirs, Hidden]"
  from Suc.prems obtain r1 where
    d: "for_each (\<lambda>child. walk leaf tgt depth (path @ [child])) ?dirs fs = Some r1"
    by (auto split: option.splits)
  have "for_each (\<lambda>child. walk leaf tgt (Suc depth) (path @ [child])) ?dirs fs = Some r1"
    using _ d by (rule for_each_mono) (simp add: Suc.IH del: walk.simps)
  with d Suc.prems show ?case
    by (simp del: walk.simps add: walk.simps(2) [of leaf tgt depth] walk.simps(2) [of leaf tgt "Suc depth"])
qed

lemma walk_deeper:
  "walk leaf tgt depth path fs = Some r \<Longrightarrow> depth \<le> deeper \<Longrightarrow> walk leaf tgt deeper path fs = Some r"
  by (induction deeper) (auto simp: le_Suc_eq walk_Suc simp del: walk.simps)

lemma copy_walk_Suc:
  "copy_walk depth source destination fs = Some r \<Longrightarrow>
     copy_walk (Suc depth) source destination fs = Some r"
proof (induction depth arbitrary: source destination fs r)
  case 0
  then show ?case by simp
next
  case (Suc depth)
  let ?dp = "destination @ last_name source"
  let ?fs0 = "snd (QDir_mkpath ?dp fs)"
  let ?dirs = "entryList ?fs0 source [NoDotAndDotDot, Dirs]"
  from Suc.prems obtain r1 where
    d: "for_each (\<lambda>child. copy_walk depth (source @ [child]) ?dp) ?dirs ?fs0 = Some r1"
    by (auto simp: Let_def split: option.splits)
  have "for_each (\<lambda>child. copy_walk (Suc depth) (source @ [child]) ?dp) ?dirs ?fs0 = Some r1"
    using _ d by (rule for_each_mono) (simp add: Suc.IH del: copy_walk.simps)
  with d Suc.prems show ?case
    by (simp del: copy_walk.simps
        add: copy_walk.simps(2) [of depth] copy_walk.simps(2) [of "Suc depth"] Let_def)
qed

lemma copy_walk_deeper:
  "copy_walk depth source destination fs = Some r \<Longrightarrow> depth \<le> deeper \<Longrightarrow>
     copy_walk deeper source destination fs = Some r"
  by (induction deeper) (auto simp: le_Suc_eq copy_walk_Suc simp del: copy_walk.simps)

lemma RemoveRecursive_deeper:
  "RemoveRecursive cwd depth path fs = Some r \<Longrightarrow> depth \<le> deeper \<Longrightarrow>
     RemoveRecursive cwd deeper path fs = Some r"
  by (simp only: RemoveRecursive_walk) (rule walk_deeper)

lemma MoveToTrashRecursive_deeper:
  assumes "QT_VERSION_CHECK 5 15 0 \<le> QT_VERSION"
  shows "MoveToTrashRecursive QT_VERSION cwd depth path fs = Some r \<Longrightarrow> depth \<le> deeper \<Longrightarrow>
     MoveToTrashRecursive QT_VERSION cwd deeper path fs = Some r"
  by (simp only: MoveToTrashRecursive_walk [OF assms]) (rule walk_deeper)

lemma CopyRecursive_deeper:
  "CopyRecursive cwd depth source destination fs = Some r \<Longrightarrow> depth \<le> deeper \<Longrightarrow>
     CopyRecursive cwd deeper source destination fs = Some r"
  by (simp only: CopyRecursive_walk) (rule copy_walk_deeper)



subsection \<open>When a walk succeeds\<close>

text \<open>No entry at or below \<open>p\<close> is locked.\<close>

definition unlocked :: "filesystem \<Rightarrow> path \<Rightarrow> bool" where
  "unlocked fs p = list_all (\<lambda>(q, e). prefix p q \<longrightarrow> \<not> locked e) (entries fs)"

lemma unlocked_lookup: "unlocked fs p \<Longrightarrow> prefix p q \<Longrightarrow> lookup fs q = Some e \<Longrightarrow> \<not> locked e"
  by (auto simp: unlocked_def list_all_iff lookup_def dest: map_of_SomeD)

lemma files_changes_within:
  assumes leaf: "deletes_a_file mk leaf"
    and run: "for_each (\<lambda>child fs'. Some (leaf (path @ [child]) fs')) xs s = Some (b, s')"
  shows "changes_within path s s'"
  using changes_within_refl changes_within_trans _ run
proof (rule for_each_rel)
  show "\<forall>x \<in> set xs. \<forall>s ok s'. Some (leaf (path @ [x]) s) = Some (ok, s') \<longrightarrow>
          changes_within path s s'"
    using leaf_changes_within [OF leaf] by auto
qed

lemma dirs_succeed:
  assumes IH: "\<And>x s h. bounded s m \<Longrightarrow> lookup s (path @ [x]) = Some (Directory h False) \<Longrightarrow>
      (\<forall>q e. prefix (path @ [x]) q \<longrightarrow> lookup s q = Some e \<longrightarrow> \<not> locked e) \<Longrightarrow>
      \<exists>s'. walk leaf (\<lambda>p. p) depth (path @ [x]) s = Some (True, s')"
    and leaf: "deletes_a_file mk leaf"
  shows "distinct xs \<Longrightarrow> bounded s m \<Longrightarrow>
     \<forall>x \<in> set xs. (\<exists>h. lookup s (path @ [x]) = Some (Directory h False)) \<and>
        (\<forall>q e. prefix (path @ [x]) q \<longrightarrow> lookup s q = Some e \<longrightarrow> \<not> locked e) \<Longrightarrow>
     \<exists>s'. for_each (\<lambda>child. walk leaf (\<lambda>p. p) depth (path @ [child])) xs s = Some (True, s') \<and>
          (\<forall>x \<in> set xs. lookup s' (path @ [x]) = None)"
proof (induction xs arbitrary: s)
  case Nil
  then show ?case by simp
next
  case (Cons x xs)
  from Cons.prems(3) obtain h where d: "lookup s (path @ [x]) = Some (Directory h False)"
    and u: "\<forall>q e. prefix (path @ [x]) q \<longrightarrow> lookup s q = Some e \<longrightarrow> \<not> locked e" by auto
  from IH [OF Cons.prems(2) d u] obtain s1
    where w: "walk leaf (\<lambda>p. p) depth (path @ [x]) s = Some (True, s1)" by blast
  from walk_changes_within [OF leaf below_same w] have cw: "changes_within (path @ [x]) s s1" .
  from cw Cons.prems(2) have b1: "bounded s1 m" by (rule bounded_changes_within)
  have rest: "\<forall>y \<in> set xs. (\<exists>h. lookup s1 (path @ [y]) = Some (Directory h False)) \<and>
        (\<forall>q e. prefix (path @ [y]) q \<longrightarrow> lookup s1 q = Some e \<longrightarrow> \<not> locked e)"
  proof
    fix y assume y: "y \<in> set xs"
    with Cons.prems(1) have xy: "x \<noteq> y" by auto
    have same: "lookup s1 q = lookup s q" if "prefix (path @ [y]) q" for q
    proof -
      from that xy have "\<not> prefix (path @ [x]) q" by (blast dest: prefix_siblings)
      with cw show ?thesis by (auto simp: changes_within_def)
    qed
    from Cons.prems(3) y obtain h' where "lookup s (path @ [y]) = Some (Directory h' False)"
      and "\<forall>q e. prefix (path @ [y]) q \<longrightarrow> lookup s q = Some e \<longrightarrow> \<not> locked e" by auto
    with same [of "path @ [y]"] same
    show "(\<exists>h. lookup s1 (path @ [y]) = Some (Directory h False)) \<and>
        (\<forall>q e. prefix (path @ [y]) q \<longrightarrow> lookup s1 q = Some e \<longrightarrow> \<not> locked e)" by simp
  qed
  from Cons.prems(1) have "distinct xs" by simp
  from Cons.IH [OF this b1 rest] obtain s'
    where r: "for_each (\<lambda>child. walk leaf (\<lambda>p. p) depth (path @ [child])) xs s1 = Some (True, s')"
      and g: "\<forall>y \<in> set xs. lookup s' (path @ [y]) = None" by blast
  from walk_success(2) [OF leaf w] have "lookup s1 (path @ [x]) = None" .
  moreover from dirs_removed_below [OF leaf below_same r] have "removed_below path (set xs) s1 s'" .
  from this [unfolded removed_below_def, rule_format, of "path @ [x]"]
  have "lookup s' (path @ [x]) = lookup s1 (path @ [x]) \<or> lookup s' (path @ [x]) = None" by auto
  ultimately have "lookup s' (path @ [x]) = None" by auto
  with w r g show ?case by simp
qed

lemma files_succeed:
  assumes leaf: "deletes_a_file mk leaf"
  shows "distinct ys \<Longrightarrow> \<forall>y \<in> set ys. \<exists>h b. lookup s (path @ [y]) = Some (File h False b) \<Longrightarrow>
     \<exists>s'. for_each (\<lambda>child fs'. Some (leaf (path @ [child]) fs')) ys s = Some (True, s') \<and>
          (\<forall>q. lookup s' q = (if q \<in> (\<lambda>y. path @ [y]) ` set ys then None else lookup s q))"
proof (induction ys arbitrary: s)
  case Nil
  then show ?case by simp
next
  case (Cons y ys)
  from leaf obtain ok s1 where l: "leaf (path @ [y]) s = (ok, s1)"
    and lk: "lookup s1 = (if ok then (lookup s)((path @ [y]) := None) else lookup s)"
    and iff: "ok \<longleftrightarrow> (\<exists>h b. lookup s (path @ [y]) = Some (File h False b))"
    unfolding deletes_a_file_def by blast
  from Cons.prems(2) iff have ok: ok by simp
  with lk have lk1: "lookup s1 = (lookup s)((path @ [y]) := None)" by simp
  from Cons.prems have "\<forall>z \<in> set ys. \<exists>h b. lookup s1 (path @ [z]) = Some (File h False b)"
    by (auto simp: lk1)
  moreover from Cons.prems(1) have "distinct ys" by simp
  ultimately obtain s'
    where r: "for_each (\<lambda>child fs'. Some (leaf (path @ [child]) fs')) ys s1 = Some (True, s')"
      and g: "\<forall>q. lookup s' q = (if q \<in> (\<lambda>y. path @ [y]) ` set ys then None else lookup s1 q)"
    using Cons.IH by blast
  from l ok r have "for_each (\<lambda>child fs'. Some (leaf (path @ [child]) fs')) (y # ys) s = Some (True, s')"
    by simp
  moreover have "\<forall>q. lookup s' q = (if q \<in> (\<lambda>y. path @ [y]) ` set (y # ys) then None else lookup s q)"
    by (auto simp: g lk1)
  ultimately show ?case by blast
qed

lemma walk_succeeds:
  assumes leaf: "deletes_a_file mk leaf"
  shows "bounded fs m \<Longrightarrow> m < length path + depth \<Longrightarrow> lookup fs path = Some (Directory h False) \<Longrightarrow>
     (\<forall>q e. prefix path q \<longrightarrow> lookup fs q = Some e \<longrightarrow> \<not> locked e) \<Longrightarrow>
     \<exists>fs'. walk leaf (\<lambda>p. p) depth path fs = Some (True, fs')"
proof (induction depth arbitrary: path fs h)
  case 0
  then show ?case by (auto simp: bounded_def)
next
  case (Suc depth)
  let ?D = "[NoDotAndDotDot, Dirs, Hidden]" and ?F = "[NoDotAndDotDot, Files, Hidden]"
  let ?dirs = "entryList fs path ?D"
  from Suc.prems(3) have dp: "isDir fs path" by (simp add: isDir_def)
  have dirs_ok: "\<forall>x \<in> set ?dirs. (\<exists>h. lookup fs (path @ [x]) = Some (Directory h False)) \<and>
        (\<forall>q e. prefix (path @ [x]) q \<longrightarrow> lookup fs q = Some e \<longrightarrow> \<not> locked e)"
  proof
    fix x assume "x \<in> set ?dirs"
    then obtain h' l' where e: "lookup fs (path @ [x]) = Some (Directory h' l')"
      by (auto dest!: entryList_exists simp: accepts_Dirs)
    with Suc.prems(4) [rule_format, of "path @ [x]" "Directory h' l'"] have "\<not> l'" by simp
    moreover have "\<forall>q e. prefix (path @ [x]) q \<longrightarrow> lookup fs q = Some e \<longrightarrow> \<not> locked e"
      using Suc.prems(4) by (blast dest: append_prefixD)
    ultimately show "(\<exists>h. lookup fs (path @ [x]) = Some (Directory h False)) \<and>
        (\<forall>q e. prefix (path @ [x]) q \<longrightarrow> lookup fs q = Some e \<longrightarrow> \<not> locked e)"
      using e by simp
  qed
  have IH': "\<exists>s'. walk leaf (\<lambda>p. p) depth (path @ [x]) s = Some (True, s')"
    if "bounded s m" "lookup s (path @ [x]) = Some (Directory h' False)"
      "\<forall>q e. prefix (path @ [x]) q \<longrightarrow> lookup s q = Some e \<longrightarrow> \<not> locked e" for x s h'
  proof -
    from Suc.prems(2) have "m < length (path @ [x]) + depth" by simp
    from Suc.IH [OF that(1) this that(2) that(3)] show ?thesis .
  qed
  have "\<exists>s'. for_each (\<lambda>child. walk leaf (\<lambda>p. p) depth (path @ [child])) ?dirs fs = Some (True, s') \<and>
          (\<forall>x \<in> set ?dirs. lookup s' (path @ [x]) = None)"
    by (rule dirs_succeed [OF _ leaf distinct_entryList Suc.prems(1) dirs_ok]) (rule IH')
  then obtain fs1
    where d: "for_each (\<lambda>child. walk leaf (\<lambda>p. p) depth (path @ [child])) ?dirs fs = Some (True, fs1)"
      and gone: "\<forall>x \<in> set ?dirs. lookup fs1 (path @ [x]) = None" by blast
  from dirs_removed_below [OF leaf below_same d] have rb: "removed_below path (set ?dirs) fs fs1" .
  then have fl: "entryList fs1 path ?F = entryList fs path ?F" by (rule files_after_dirs)
  have less: "lookup fs1 q = lookup fs q \<or> lookup fs1 q = None" for q
    using rb [unfolded removed_below_def, rule_format, of q] by auto
  have files_ok: "\<forall>y \<in> set (entryList fs1 path ?F). \<exists>h b. lookup fs1 (path @ [y]) = Some (File h False b)"
  proof
    fix y assume "y \<in> set (entryList fs1 path ?F)"
    then obtain h' l' b' where e: "lookup fs1 (path @ [y]) = Some (File h' l' b')"
      by (auto dest!: entryList_exists simp: accepts_Files)
    with less [of "path @ [y]"] have "lookup fs (path @ [y]) = Some (File h' l' b')" by simp
    with Suc.prems(4) [rule_format, of "path @ [y]" "File h' l' b'"] have "\<not> l'" by simp
    with e show "\<exists>h b. lookup fs1 (path @ [y]) = Some (File h False b)" by simp
  qed
  from files_succeed [OF leaf distinct_entryList files_ok] obtain fs2
    where f: "for_each (\<lambda>child fs'. Some (leaf (path @ [child]) fs')) (entryList fs1 path ?F) fs1 =
                Some (True, fs2)"
      and l2: "\<forall>q. lookup fs2 q =
                (if q \<in> (\<lambda>y. path @ [y]) ` set (entryList fs1 path ?F) then None else lookup fs1 q)"
    by blast
  from rb have "lookup fs1 path = lookup fs path"
    by (auto simp: removed_below_def not_prefix_child)
  with l2 Suc.prems(3) have p2: "lookup fs2 path = Some (Directory h False)" by auto
  have c2: "lookup fs2 (path @ [c]) = None" for c
  proof (cases "lookup fs (path @ [c])")
    case None
    with less [of "path @ [c]"] have "lookup fs1 (path @ [c]) = None" by simp
    with l2 show ?thesis by simp
  next
    case (Some e)
    show ?thesis
    proof (cases e)
      case (File h' l' b')
      with Some dp have "c \<in> set (entryList fs path ?F)"
        by (simp add: set_entryList listed_def accepts_Files)
      with fl l2 show ?thesis by simp
    next
      case (Directory h' l')
      with Some dp have "c \<in> set ?dirs"
        by (simp add: set_entryList listed_def accepts_Dirs)
      with gone have "lookup fs1 (path @ [c]) = None" by simp
      with l2 show ?thesis by simp
    qed
  qed
  obtain ok3 fs3 where r: "QDir_rmdir path fs2 = (ok3, fs3)" by (cases "QDir_rmdir path fs2")
  from QDir_rmdir_spec(3) [OF r] p2 c2 have ok3 by blast
  with d f r show ?case by simp
qed

lemma walk_succeeds_unlocked:
  assumes leaf: "deletes_a_file mk leaf" and "isDir fs p" "unlocked fs p"
  shows "\<exists>fs'. walk leaf (\<lambda>p. p) (Suc (height fs)) p fs = Some (True, fs')"
proof -
  from assms(2) obtain h l where d: "lookup fs p = Some (Directory h l)"
    by (auto simp: isDir_def split: option.splits entry.splits)
  from unlocked_lookup [OF assms(3) _ d] have "\<not> l" by simp
  with d have "lookup fs p = Some (Directory h False)" by simp
  moreover have "\<forall>q e. prefix p q \<longrightarrow> lookup fs q = Some e \<longrightarrow> \<not> locked e"
    using unlocked_lookup [OF assms(3)] by blast
  ultimately show ?thesis
    using walk_succeeds [OF leaf bounded_height, of fs p "Suc (height fs)" h] by simp
qed

lemma walk_removes_files:
  assumes leaf: "deletes_a_file mk leaf" and tgt: "below tgt"
    and dir: "isDir fs path"
    and d: "for_each (\<lambda>child. walk leaf tgt depth (path @ [child]))
              (entryList fs path [NoDotAndDotDot, Dirs, Hidden]) fs = Some (True, fs1)"
    and u: "\<forall>c h l b. lookup fs (path @ [c]) = Some (File h l b) \<longrightarrow> \<not> l"
  shows "\<exists>ok fs'. walk leaf tgt (Suc depth) path fs = Some (ok, fs') \<and>
           (\<forall>c h b. lookup fs (path @ [c]) = Some (File h False b) \<longrightarrow>
              lookup fs' (path @ [c]) = None \<and> (mk (path @ [c]), True) \<in> set (calls fs'))"
proof -
  let ?D = "[NoDotAndDotDot, Dirs, Hidden]" and ?F = "[NoDotAndDotDot, Files, Hidden]"
  from dirs_removed_below [OF leaf tgt d]
  have rb: "removed_below path (set (entryList fs path ?D)) fs fs1" .
  then have fl: "entryList fs1 path ?F = entryList fs path ?F" by (rule files_after_dirs)
  have less: "lookup fs1 q = lookup fs q \<or> lookup fs1 q = None" for q
    using rb [unfolded removed_below_def, rule_format, of q] by auto
  have files_ok: "\<forall>y \<in> set (entryList fs1 path ?F). \<exists>h b. lookup fs1 (path @ [y]) = Some (File h False b)"
  proof
    fix y assume "y \<in> set (entryList fs1 path ?F)"
    then obtain h' l' b' where e: "lookup fs1 (path @ [y]) = Some (File h' l' b')"
      by (auto dest!: entryList_exists simp: accepts_Files)
    with less [of "path @ [y]"] have "lookup fs (path @ [y]) = Some (File h' l' b')" by simp
    with u have "\<not> l'" by blast
    with e show "\<exists>h b. lookup fs1 (path @ [y]) = Some (File h False b)" by simp
  qed
  from files_succeed [OF leaf distinct_entryList files_ok] obtain fs2
    where f: "for_each (\<lambda>child fs'. Some (leaf (path @ [child]) fs')) (entryList fs1 path ?F) fs1 =
                Some (True, fs2)"
      and l2: "\<forall>q. lookup fs2 q =
                (if q \<in> (\<lambda>y. path @ [y]) ` set (entryList fs1 path ?F) then None else lookup fs1 q)"
    by blast
  from files_calls [OF leaf f]
  have cs: "calls fs2 = calls fs1 @ map (\<lambda>child. (mk (path @ [child]), True)) (entryList fs1 path ?F)" .
  obtain ok3 fs3 where r: "QDir_rmdir (tgt path) fs2 = (ok3, fs3)" by (cases "QDir_rmdir (tgt path) fs2")
  from QDir_rmdir_spec(1) [OF r] have c3: "calls fs3 = calls fs2 @ [(Rmdir (tgt path), ok3)]" .
  from QDir_rmdir_spec(2) [OF r]
  have l3: "lookup fs3 = (if ok3 then (lookup fs2)(tgt path := None) else lookup fs2)" .
  from d f r have w: "walk leaf tgt (Suc depth) path fs = Some (ok3, fs3)" by simp
  have "lookup fs3 (path @ [c]) = None \<and> (mk (path @ [c]), True) \<in> set (calls fs3)"
    if "lookup fs (path @ [c]) = Some (File h False b)" for c h b
  proof -
    from that dir have "c \<in> set (entryList fs path ?F)"
      by (auto simp: set_entryList listed_def accepts_Files)
    with fl have in1: "c \<in> set (entryList fs1 path ?F)" by simp
    with l2 have "lookup fs2 (path @ [c]) = None" by simp
    with l3 have "lookup fs3 (path @ [c]) = None" by (simp split: if_splits)
    moreover from in1 cs c3 have "(mk (path @ [c]), True) \<in> set (calls fs3)" by simp
    ultimately show ?thesis ..
  qed
  with w show ?thesis by blast
qed



subsection \<open>A relative path name\<close>

text \<open>
  For a relative path name the last step of the walk is \<open>rmdir\<close> of the directory's
  path followed by the names of the path name. Where every entry lies in a directory, that
  step cannot succeed: the path it names lies below a child directory, the walk of the
  first child directory comes before it, and that walk ends with a step of the same kind.
\<close>

lemma walk_relative_fails:
  assumes leaf: "deletes_a_file mk leaf" and c: "closed fs"
  shows "k < length path \<Longrightarrow> walk leaf (\<lambda>p. p @ drop k p) depth path fs \<noteq> Some (True, fs')"
proof (induction depth arbitrary: path fs')
  case 0
  show ?case by simp
next
  case (Suc depth)
  let ?D = "[NoDotAndDotDot, Dirs, Hidden]"
  show ?case
  proof
    assume "walk leaf (\<lambda>p. p @ drop k p) (Suc depth) path fs = Some (True, fs')"
    then show False
    proof (cases rule: walk_unfold)
      case dir_failed
      then show False by simp
    next
      case (file_failed fs1)
      then show False by simp
    next
      case (finished fs1 fs2)
      have none: "entryList fs path ?D = []"
      proof (cases "entryList fs path ?D")
        case Nil
        then show ?thesis .
      next
        case (Cons x xs)
        with finished(1) obtain s1
          where "walk leaf (\<lambda>p. p @ drop k p) depth (path @ [x]) fs = Some (True, s1)"
          by (auto split: option.splits if_splits)
        moreover from Suc.prems have "k < length (path @ [x])" by simp
        ultimately show ?thesis using Suc.IH by blast
      qed
      with finished(1) have "fs1 = fs" by simp
      with files_changes_within [OF leaf finished(2)] have cw: "changes_within path fs fs2" by simp
      from QDir_rmdir_spec(3) [OF finished(3)] obtain h
        where "lookup fs2 (path @ drop k path) = Some (Directory h False)" by blast
      with cw have t: "lookup fs (path @ drop k path) = Some (Directory h False)"
        unfolding changes_within_def by (metis option.distinct(1))
      from Suc.prems obtain x r where xr: "drop k path = x # r" by (cases "drop k path") auto
      from closed_above [OF c t] xr have dp: "isDir fs path" by simp
      have "isDir fs (path @ [x])"
      proof (cases "r = []")
        case True
        with t xr show ?thesis by (simp add: isDir_def)
      next
        case False
        from t xr have "lookup fs ((path @ [x]) @ r) = Some (Directory h False)" by simp
        from closed_above [OF c this False] show ?thesis .
      qed
      then obtain h' l' where "lookup fs (path @ [x]) = Some (Directory h' l')"
        by (auto simp: isDir_def split: option.splits entry.splits)
      with dp have "x \<in> set (entryList fs path ?D)"
        by (simp add: set_entryList listed_def accepts_Dirs)
      with none show False by simp
    qed
  qed
qed

lemma rmdir_target_Relative: "rmdir_target cwd (Relative n ns) = (\<lambda>p. p @ drop (length cwd) p)"
  by (rule ext) (simp add: rmdir_target_def)

lemma relative_walk_fails:
  assumes "deletes_a_file mk leaf" "closed fs"
  shows "walk leaf (rmdir_target cwd (Relative n ns)) depth (location cwd (Relative n ns)) fs \<noteq>
           Some (True, fs')"
  unfolding rmdir_target_Relative by (rule walk_relative_fails [OF assms]) simp



lemma below_drop: "below (\<lambda>p. p @ drop k p)"
  by (simp add: below_def)

lemma files_keep_directory:
  assumes leaf: "deletes_a_file mk leaf"
    and run: "for_each (\<lambda>child fs'. Some (leaf (path @ [child]) fs')) xs s = Some (b, s')"
  shows "lookup s' path = lookup s path"
proof (rule for_each_rel [where R = "\<lambda>s s'. lookup s' path = lookup s path", OF _ _ _ run])
  show "\<forall>x \<in> set xs. \<forall>s ok s'. Some (leaf (path @ [x]) s) = Some (ok, s') \<longrightarrow>
          lookup s' path = lookup s path"
  proof (intro ballI allI impI)
    fix x s ok s' assume "Some (leaf (path @ [x]) s) = Some (ok, s')"
    then have l: "leaf (path @ [x]) s = (ok, s')" by simp
    from leaf obtain ok1 s1 where "leaf (path @ [x]) s = (ok1, s1)"
      "lookup s1 = (if ok1 then (lookup s)((path @ [x]) := None) else lookup s)"
      unfolding deletes_a_file_def by blast
    with l show "lookup s' path = lookup s path" by (simp split: if_splits)
  qed
qed simp_all

lemma walk_keeps_directory:
  assumes leaf: "deletes_a_file mk leaf" and k: "k < length path"
    and run: "walk leaf (\<lambda>p. p @ drop k p) depth path fs = Some (ok, fs')"
  shows "lookup fs' path = lookup fs path"
proof -
  from run obtain n where depth: "depth = Suc n" by (cases depth) auto
  have dirs: "lookup s' path = lookup s path"
    if "for_each (\<lambda>child. walk leaf (\<lambda>p. p @ drop k p) n (path @ [child])) xs s = Some (b, s')"
    for xs s b s'
    using dirs_removed_below [OF leaf below_drop that]
    by (auto simp: removed_below_def not_prefix_child)
  from run [unfolded depth] show ?thesis
  proof (cases rule: walk_unfold)
    case dir_failed
    from dirs [OF dir_failed(2)] show ?thesis .
  next
    case (file_failed fs1)
    from dirs [OF file_failed(2)] files_keep_directory [OF leaf file_failed(3)]
    show ?thesis by simp
  next
    case (finished fs1 fs2)
    from k have "path @ drop k path \<noteq> path" by simp
    with QDir_rmdir_spec(2) [OF finished(3)] have "lookup fs' path = lookup fs2 path"
      by (simp split: if_splits)
    with dirs [OF finished(1)] files_keep_directory [OF leaf finished(2)]
    show ?thesis by simp
  qed
qed

lemma walk_relative:
  assumes leaf: "deletes_a_file mk leaf" and c: "closed fs"
  shows "\<exists>fs'. walk leaf (rmdir_target cwd (Relative n ns)) (Suc (height fs)) (cwd @ n # ns) fs =
            Some (False, fs') \<and>
          lookup fs' (cwd @ n # ns) = lookup fs (cwd @ n # ns)"
proof -
  let ?tgt = "rmdir_target cwd (Relative n ns)"
  from walk_terminates [OF leaf below_rmdir_target] obtain ok fs'
    where w: "walk leaf ?tgt (Suc (height fs)) (cwd @ n # ns) fs = Some (ok, fs')" by blast
  from relative_walk_fails [OF leaf c, of cwd n ns "Suc (height fs)" fs'] w have "\<not> ok" by auto
  moreover from w have "lookup fs' (cwd @ n # ns) = lookup fs (cwd @ n # ns)"
    unfolding rmdir_target_Relative by (intro walk_keeps_directory [OF leaf _ w [unfolded rmdir_target_Relative]]) simp
  ultimately show ?thesis using w by simp
qed

section \<open>Properties of the filesystem functions\<close>

text \<open>
  Claim C6. \<open>RemoveRecursive\<close> and \<open>MoveToTrashRecursive\<close> (from Qt 5.15 on) list
  the children of a directory with \<open>QDir::Hidden\<close>, \<open>CopyRecursive\<close> without.

  Removal and trash, for a directory given by an absolute path name in which nothing is
  locked: the function returns true; and whenever it returns true, every entry that lay
  directly in the directory, hidden or not, has been dealt with and is gone: a file by a
  successful \<open>QFile::remove\<close> (or \<open>QFile::moveToTrash\<close>), a directory by the
  successful \<open>rmdir\<close> that ends its own walk. For every path name, relative ones
  too: once the walks of the child directories have returned true, each file of the
  directory, hidden or not, is removed by a successful call, if no file of the directory
  is locked.

  Copy: whatever \<open>CopyRecursive\<close> returns, it creates nothing at or below the place
  where a hidden child of the source would go.

  The lists behind this: with the filters of removal and trash a directory lists all its
  child directories and all its files; with the filters of the copy it lists those that
  are not hidden.
\<close>

theorem hidden_children_are_removed_but_not_copied:
  "(isDir fs ns \<and> unlocked fs ns \<longrightarrow>
      (\<exists>fs'. RemoveRecursive cwd (Suc (height fs)) (Absolute ns) fs = Some (True, fs')) \<and>
      (QT_VERSION_CHECK 5 15 0 \<le> QT_VERSION \<longrightarrow>
         (\<exists>fs'. MoveToTrashRecursive QT_VERSION cwd (Suc (height fs)) (Absolute ns) fs = Some (True, fs')))) \<and>
   (RemoveRecursive cwd depth (Absolute ns) fs = Some (True, fs') \<and> lookup fs (ns @ [child]) = Some e \<longrightarrow>
      (if is_File e then (Remove (ns @ [child]), True) else (Rmdir (ns @ [child]), True))
        \<in> set (calls fs') \<and>
      lookup fs' (ns @ [child]) = None) \<and>
   (QT_VERSION_CHECK 5 15 0 \<le> QT_VERSION \<and>
    MoveToTrashRecursive QT_VERSION cwd depth (Absolute ns) fs = Some (True, fs') \<and>
    lookup fs (ns @ [child]) = Some e \<longrightarrow>
      (if is_File e then (MoveToTrash (ns @ [child]), True) else (Rmdir (ns @ [child]), True))
        \<in> set (calls fs') \<and>
      lookup fs' (ns @ [child]) = None) \<and>
   (isDir fs (location cwd path) \<and>
    for_each (\<lambda>child. RemoveRecursive cwd depth (slash path child))
      (entryList fs (location cwd path) [NoDotAndDotDot, Dirs, Hidden]) fs = Some (True, fs1) \<and>
    (\<forall>c h l b. lookup fs (location cwd path @ [c]) = Some (File h l b) \<longrightarrow> \<not> l) \<longrightarrow>
      (\<exists>ok fs'. RemoveRecursive cwd (Suc depth) path fs = Some (ok, fs') \<and>
         (\<forall>c h b. lookup fs (location cwd path @ [c]) = Some (File h False b) \<longrightarrow>
            lookup fs' (location cwd path @ [c]) = None \<and>
            (Remove (location cwd path @ [c]), True) \<in> set (calls fs')))) \<and>
   (QT_VERSION_CHECK 5 15 0 \<le> QT_VERSION \<and> isDir fs (location cwd path) \<and>
    for_each (\<lambda>child. MoveToTrashRecursive QT_VERSION cwd depth (slash path child))
      (entryList fs (location cwd path) [NoDotAndDotDot, Dirs, Hidden]) fs = Some (True, fs1) \<and>
    (\<forall>c h l b. lookup fs (location cwd path @ [c]) = Some (File h l b) \<longrightarrow> \<not> l) \<longrightarrow>
      (\<exists>ok fs'. MoveToTrashRecursive QT_VERSION cwd (Suc depth) path fs = Some (ok, fs') \<and>
         (\<forall>c h b. lookup fs (location cwd path @ [c]) = Some (File h False b) \<longrightarrow>
            lookup fs' (location cwd path @ [c]) = None \<and>
            (MoveToTrash (location cwd path @ [c]), True) \<in> set (calls fs')))) \<and>
   (CopyRecursive cwd depth source destination fs = Some (ok, fs') \<and>
    lookup fs (location cwd source @ [child]) = Some e \<and> hidden e \<and>
    prefix (location cwd destination @ section_last source @ [child]) q \<and> lookup fs q = None \<longrightarrow>
      lookup fs' q = None) \<and>
   (isDir fs p \<longrightarrow>
      set (entryList fs p [NoDotAndDotDot, Dirs, Hidden]) =
        {name. \<exists>h l. lookup fs (p @ [name]) = Some (Directory h l)} \<and>
      set (entryList fs p [NoDotAndDotDot, Files, Hidden]) =
        {name. \<exists>h l b. lookup fs (p @ [name]) = Some (File h l b)} \<and>
      set (entryList fs p [NoDotAndDotDot, Dirs]) =
        {name. \<exists>l. lookup fs (p @ [name]) = Some (Directory False l)} \<and>
      set (entryList fs p [NoDotAndDotDot, Files]) =
        {name. \<exists>l b. lookup fs (p @ [name]) = Some (File False l b)})"
proof (intro conjI impI)
  assume d: "isDir fs p"
  have dirs: "accepts [NoDotAndDotDot, Dirs] e \<longleftrightarrow> (\<exists>l. e = Directory False l)" for e
    by (cases e) (simp_all add: accepts_def)
  have files: "accepts [NoDotAndDotDot, Files] e \<longleftrightarrow> (\<exists>l b. e = File False l b)" for e
    by (cases e) (simp_all add: accepts_def)
  from d show "set (entryList fs p [NoDotAndDotDot, Dirs, Hidden]) =
        {name. \<exists>h l. lookup fs (p @ [name]) = Some (Directory h l)}"
    by (auto simp: set_entryList listed_def accepts_Dirs)
  from d show "set (entryList fs p [NoDotAndDotDot, Files, Hidden]) =
        {name. \<exists>h l b. lookup fs (p @ [name]) = Some (File h l b)}"
    by (auto simp: set_entryList listed_def accepts_Files)
  from d show "set (entryList fs p [NoDotAndDotDot, Dirs]) =
        {name. \<exists>l. lookup fs (p @ [name]) = Some (Directory False l)}"
    by (auto simp: set_entryList listed_def dirs)
  from d show "set (entryList fs p [NoDotAndDotDot, Files]) =
        {name. \<exists>l b. lookup fs (p @ [name]) = Some (File False l b)}"
    by (auto simp: set_entryList listed_def files)
next
  assume a: "isDir fs ns \<and> unlocked fs ns"
  then have d: "isDir fs ns" and u: "unlocked fs ns" by simp_all
  from walk_succeeds_unlocked [OF QFile_remove_deletes d u]
  show "\<exists>fs'. RemoveRecursive cwd (Suc (height fs)) (Absolute ns) fs = Some (True, fs')"
    by (simp only: RemoveRecursive_walk rmdir_target_Absolute location.simps)
  assume v: "QT_VERSION_CHECK 5 15 0 \<le> QT_VERSION"
  from walk_succeeds_unlocked [OF QFile_moveToTrash_deletes d u]
  show "\<exists>fs'. MoveToTrashRecursive QT_VERSION cwd (Suc (height fs)) (Absolute ns) fs = Some (True, fs')"
    by (simp only: MoveToTrashRecursive_walk [OF v] rmdir_target_Absolute location.simps)
next
  assume a: "RemoveRecursive cwd depth (Absolute ns) fs = Some (True, fs') \<and> lookup fs (ns @ [child]) = Some e"
  then have w: "walk QFile_remove (\<lambda>p. p) depth ns fs = Some (True, fs')"
    by (simp add: RemoveRecursive_walk)
  from walk_visits_child [OF QFile_remove_deletes w] a
  show "(if is_File e then (Remove (ns @ [child]), True) else (Rmdir (ns @ [child]), True))
        \<in> set (calls fs')" by blast
  from walk_success(3) [OF QFile_remove_deletes w] show "lookup fs' (ns @ [child]) = None" .
next
  assume a: "QT_VERSION_CHECK 5 15 0 \<le> QT_VERSION \<and>
    MoveToTrashRecursive QT_VERSION cwd depth (Absolute ns) fs = Some (True, fs') \<and>
    lookup fs (ns @ [child]) = Some e"
  then have v: "QT_VERSION_CHECK 5 15 0 \<le> QT_VERSION"
    and m: "MoveToTrashRecursive QT_VERSION cwd depth (Absolute ns) fs = Some (True, fs')" by simp_all
  from m have w: "walk QFile_moveToTrash (\<lambda>p. p) depth ns fs = Some (True, fs')"
    by (simp add: MoveToTrashRecursive_walk [OF v])
  from walk_visits_child [OF QFile_moveToTrash_deletes w] a
  show "(if is_File e then (MoveToTrash (ns @ [child]), True) else (Rmdir (ns @ [child]), True))
        \<in> set (calls fs')" by blast
  from walk_success(3) [OF QFile_moveToTrash_deletes w] show "lookup fs' (ns @ [child]) = None" .
next
  assume a: "isDir fs (location cwd path) \<and>
    for_each (\<lambda>child. RemoveRecursive cwd depth (slash path child))
      (entryList fs (location cwd path) [NoDotAndDotDot, Dirs, Hidden]) fs = Some (True, fs1) \<and>
    (\<forall>c h l b. lookup fs (location cwd path @ [c]) = Some (File h l b) \<longrightarrow> \<not> l)"
  have "(\<lambda>child. RemoveRecursive cwd depth (slash path child)) =
        (\<lambda>child. walk QFile_remove (rmdir_target cwd path) depth (location cwd path @ [child]))"
    by (intro ext) (simp add: RemoveRecursive_walk)
  with a have "for_each (\<lambda>child. walk QFile_remove (rmdir_target cwd path) depth (location cwd path @ [child]))
      (entryList fs (location cwd path) [NoDotAndDotDot, Dirs, Hidden]) fs = Some (True, fs1)" by simp
  moreover from a have "isDir fs (location cwd path)"
    and "\<forall>c h l b. lookup fs (location cwd path @ [c]) = Some (File h l b) \<longrightarrow> \<not> l" by blast+
  ultimately have "\<exists>ok fs'. walk QFile_remove (rmdir_target cwd path) (Suc depth) (location cwd path) fs =
        Some (ok, fs') \<and>
         (\<forall>c h b. lookup fs (location cwd path @ [c]) = Some (File h False b) \<longrightarrow>
            lookup fs' (location cwd path @ [c]) = None \<and>
            (Remove (location cwd path @ [c]), True) \<in> set (calls fs'))"
    by (intro walk_removes_files [OF QFile_remove_deletes below_rmdir_target])
  then show "\<exists>ok fs'. RemoveRecursive cwd (Suc depth) path fs = Some (ok, fs') \<and>
         (\<forall>c h b. lookup fs (location cwd path @ [c]) = Some (File h False b) \<longrightarrow>
            lookup fs' (location cwd path @ [c]) = None \<and>
            (Remove (location cwd path @ [c]), True) \<in> set (calls fs'))"
    by (simp only: RemoveRecursive_walk)
next
  assume a: "QT_VERSION_CHECK 5 15 0 \<le> QT_VERSION \<and> isDir fs (location cwd path) \<and>
    for_each (\<lambda>child. MoveToTrashRecursive QT_VERSION cwd depth (slash path child))
      (entryList fs (location cwd path) [NoDotAndDotDot, Dirs, Hidden]) fs = Some (True, fs1) \<and>
    (\<forall>c h l b. lookup fs (location cwd path @ [c]) = Some (File h l b) \<longrightarrow> \<not> l)"
  then have v: "QT_VERSION_CHECK 5 15 0 \<le> QT_VERSION" by simp
  have "(\<lambda>child. MoveToTrashRecursive QT_VERSION cwd depth (slash path child)) =
        (\<lambda>child. walk QFile_moveToTrash (rmdir_target cwd path) depth (location cwd path @ [child]))"
    by (intro ext) (simp add: MoveToTrashRecursive_walk [OF v])
  with a have "for_each (\<lambda>child. walk QFile_moveToTrash (rmdir_target cwd path) depth (location cwd path @ [child]))
      (entryList fs (location cwd path) [NoDotAndDotDot, Dirs, Hidden]) fs = Some (True, fs1)" by simp
  moreover from a have "isDir fs (location cwd path)"
    and "\<forall>c h l b. lookup fs (location cwd path @ [c]) = Some (File h l b) \<longrightarrow> \<not> l" by blast+
  ultimately have "\<exists>ok fs'. walk QFile_moveToTrash (rmdir_target cwd path) (Suc depth) (location cwd path) fs =
        Some (ok, fs') \<and>
         (\<forall>c h b. lookup fs (location cwd path @ [c]) = Some (File h False b) \<longrightarrow>
            lookup fs' (location cwd path @ [c]) = None \<and>
            (MoveToTrash (location cwd path @ [c]), True) \<in> set (calls fs'))"
    by (intro walk_removes_files [OF QFile_moveToTrash_deletes below_rmdir_target])
  then show "\<exists>ok fs'. MoveToTrashRecursive QT_VERSION cwd (Suc depth) path fs = Some (ok, fs') \<and>
         (\<forall>c h b. lookup fs (location cwd path @ [c]) = Some (File h False b) \<longrightarrow>
            lookup fs' (location cwd path @ [c]) = None \<and>
            (MoveToTrash (location cwd path @ [c]), True) \<in> set (calls fs'))"
    by (simp only: MoveToTrashRecursive_walk [OF v])
next
  assume a: "CopyRecursive cwd depth source destination fs = Some (ok, fs') \<and>
    lookup fs (location cwd source @ [child]) = Some e \<and> hidden e \<and>
    prefix (location cwd destination @ section_last source @ [child]) q \<and> lookup fs q = None"
  then have "copy_walk depth (location cwd source) (location cwd destination) fs = Some (ok, fs')"
    by (simp add: CopyRecursive_walk)
  from copy_walk_skips_hidden [OF this, of child e q] a show "lookup fs' q = None"
    by (simp add: last_name_location)
qed


text \<open>
  The theorem at \<open>/music\<close>, in which nothing is locked: removal returns true and the
  hidden file is removed; the hidden directory is removed after its content went to the
  trash; a copy to \<open>/backup\<close> returns true with the plain file copied and the hidden
  one absent. And at the relative path name \<open>music\<close> in \<open>/home\<close>: the hidden file
  is removed.
\<close>

theorem hidden_children_are_removed_but_not_copied_witness:
  "isDir example_fs [''music''] \<and> unlocked example_fs [''music''] \<and>
   map_option fst (RemoveRecursive [] (Suc (height example_fs)) (Absolute [''music'']) example_fs) =
     Some True \<and>
   map_option fst (RemoveRecursive [] 3 (Absolute [''music'']) example_fs) = Some True \<and>
   lookup example_fs [''music'', ''.cover''] = Some (File True False ''jpg'') \<and>
   (Remove [''music'', ''.cover''], True)
     \<in> set (calls (snd (the (RemoveRecursive [] 3 (Absolute [''music'']) example_fs)))) \<and>
   map_option fst (MoveToTrashRecursive (QT_VERSION_CHECK 5 15 2) [] 3 (Absolute [''music'']) example_fs) =
     Some True \<and>
   lookup example_fs [''music'', ''.cache''] = Some (Directory True False) \<and>
   (Rmdir [''music'', ''.cache''], True)
     \<in> set (calls (snd (the (MoveToTrashRecursive (QT_VERSION_CHECK 5 15 2) [] 3 (Absolute [''music''])
                               example_fs)))) \<and>
   lookup home_fs [''home'', ''music'', ''.cover''] = Some (File True False ''jpg'') \<and>
   lookup (snd (the (RemoveRecursive [''home''] 1 (Relative ''music'' []) home_fs)))
     [''home'', ''music'', ''.cover''] = None \<and>
   map_option fst (CopyRecursive [] 3 (Absolute [''music'']) (Absolute [''backup'']) example_fs) = Some True \<and>
   lookup (snd (the (CopyRecursive [] 3 (Absolute [''music'']) (Absolute [''backup'']) example_fs)))
     [''backup'', ''music'', ''a.mp3''] = Some (File False False ''aaa'') \<and>
   lookup (snd (the (CopyRecursive [] 3 (Absolute [''music'']) (Absolute [''backup'']) example_fs)))
     [''backup'', ''music'', ''.cover''] = None \<and>
   ''.cache'' \<in> set (entryList example_fs [''music''] [NoDotAndDotDot, Dirs, Hidden]) \<and>
   ''.cache'' \<notin> set (entryList example_fs [''music''] [NoDotAndDotDot, Dirs])"
proof -
  have d: "isDir example_fs [''music'']" by (simp add: isDir_def lookup_def example_fs_def)
  have u: "unlocked example_fs [''music'']" by (simp add: unlocked_def example_fs_def)
  have l0: "lookup example_fs ([''music''] @ [''.cache'']) = Some (Directory True False)"
    by (simp add: lookup_def example_fs_def)
  note lists = hidden_children_are_removed_but_not_copied
    [where fs = example_fs and p = "[''music'']",
     THEN conjunct2, THEN conjunct2, THEN conjunct2, THEN conjunct2, THEN conjunct2, THEN conjunct2,
     THEN mp, OF d]
  from lists have 5: "set (entryList example_fs [''music''] [NoDotAndDotDot, Dirs, Hidden]) =
        {name. \<exists>h l. lookup example_fs ([''music''] @ [name]) = Some (Directory h l)}"
    by (rule conjunct1)
  from lists have 6: "set (entryList example_fs [''music''] [NoDotAndDotDot, Dirs]) =
        {name. \<exists>l. lookup example_fs ([''music''] @ [name]) = Some (Directory False l)}"
    by (rule conjunct2 [THEN conjunct2, THEN conjunct1])
  from l0 have 7: "''.cache'' \<in> set (entryList example_fs [''music''] [NoDotAndDotDot, Dirs, Hidden])"
    unfolding 5 by auto
  from l0 have 8: "''.cache'' \<notin> set (entryList example_fs [''music''] [NoDotAndDotDot, Dirs])"
    unfolding 6 by auto
  have "\<exists>fs'. RemoveRecursive [] (Suc (height example_fs)) (Absolute [''music'']) example_fs = Some (True, fs')"
    by (rule hidden_children_are_removed_but_not_copied
      [where fs = example_fs and ns = "[''music'']" and cwd = "[]",
       THEN conjunct1, THEN mp, THEN conjunct1]) (intro conjI d u)
  then have 0: "map_option fst (RemoveRecursive [] (Suc (height example_fs)) (Absolute [''music'']) example_fs) =
     Some True" by auto
  define r where "r = snd (the (RemoveRecursive [] 3 (Absolute [''music'']) example_fs))"
  define t where "t = snd (the (MoveToTrashRecursive (QT_VERSION_CHECK 5 15 2) [] 3 (Absolute [''music''])
                               example_fs))"
  define c where "c = snd (the (CopyRecursive [] 3 (Absolute [''music'']) (Absolute [''backup'']) example_fs))"
  have ok_r: "map_option fst (RemoveRecursive [] 3 (Absolute [''music'']) example_fs) = Some True"
    by code_simp
  have ok_t: "map_option fst (MoveToTrashRecursive (QT_VERSION_CHECK 5 15 2) [] 3 (Absolute [''music''])
      example_fs) = Some True"
    by code_simp
  have ok_c: "map_option fst (CopyRecursive [] 3 (Absolute [''music'']) (Absolute [''backup'']) example_fs) =
      Some True"
    by code_simp
  have run_r: "RemoveRecursive [] 3 (Absolute [''music'']) example_fs = Some (True, r)"
    unfolding r_def using ok_r by (rule run_the)
  have run_t: "MoveToTrashRecursive (QT_VERSION_CHECK 5 15 2) [] 3 (Absolute [''music'']) example_fs =
      Some (True, t)"
    unfolding t_def using ok_t by (rule run_the)
  have run_c: "CopyRecursive [] 3 (Absolute [''music'']) (Absolute [''backup'']) example_fs = Some (True, c)"
    unfolding c_def using ok_c by (rule run_the)
  have v: "QT_VERSION_CHECK 5 15 0 \<le> QT_VERSION_CHECK 5 15 2" by (simp add: QT_VERSION_CHECK_def)
  have l1: "lookup example_fs ([''music''] @ [''.cover'']) = Some (File True False ''jpg'')"
    by (simp add: lookup_def example_fs_def)
  have l2: "lookup example_fs ([''music''] @ [''.cache'']) = Some (Directory True False)"
    by (simp add: lookup_def example_fs_def)
  have l3: "lookup example_fs [''backup'', ''music'', ''.cover''] = None"
    by (simp add: lookup_def example_fs_def)
  have p: "prefix (location [] (Absolute [''backup'']) @ section_last (Absolute [''music'']) @ [''.cover''])
      [''backup'', ''music'', ''.cover'']"
    by (simp add: section_last_def)
  have 1: "(Remove [''music'', ''.cover''], True) \<in> set (calls r)"
    using hidden_children_are_removed_but_not_copied
      [where depth = 3 and ns = "[''music'']" and cwd = "[]" and fs = example_fs and fs' = r
         and child = "''.cover''" and e = "File True False ''jpg''"] run_r l1 by simp
  have 2: "(Rmdir [''music'', ''.cache''], True) \<in> set (calls t)"
    using hidden_children_are_removed_but_not_copied
      [where depth = 3 and ns = "[''music'']" and cwd = "[]" and fs = example_fs and fs' = t
         and child = "''.cache''" and e = "Directory True False"
         and QT_VERSION = "QT_VERSION_CHECK 5 15 2"] run_t l2 v by simp
  have 3: "lookup c [''backup'', ''music'', ''.cover''] = None"
    using hidden_children_are_removed_but_not_copied
      [where depth = 3 and source = "Absolute [''music'']" and destination = "Absolute [''backup'']"
         and cwd = "[]" and fs = example_fs and fs' = c and ok = True
         and child = "''.cover''" and e = "File True False ''jpg''"
         and q = "[''backup'', ''music'', ''.cover'']"]
      run_c l1 l3 p by simp
  have 4: "lookup c [''backup'', ''music'', ''a.mp3''] = Some (File False False ''aaa'')"
    unfolding c_def by code_simp
  from l1 have l1': "lookup example_fs [''music'', ''.cover''] = Some (File True False ''jpg'')"
    by simp
  from l2 have l2': "lookup example_fs [''music'', ''.cache''] = Some (Directory True False)"
    by simp
  \<comment> \<open>the relative path name\<close>
  have hd: "isDir home_fs (location [''home''] (Relative ''music'' []))"
    by (simp add: isDir_def lookup_def home_fs_def)
  have he: "entryList home_fs (location [''home''] (Relative ''music'' [])) [NoDotAndDotDot, Dirs, Hidden] = []"
    by code_simp
  have hf: "for_each (\<lambda>child. RemoveRecursive [''home''] 0 (slash (Relative ''music'' []) child))
      (entryList home_fs (location [''home''] (Relative ''music'' [])) [NoDotAndDotDot, Dirs, Hidden]) home_fs =
      Some (True, home_fs)"
    unfolding he by simp
  have hu: "\<forall>c h l b. lookup home_fs (location [''home''] (Relative ''music'' []) @ [c]) = Some (File h l b) \<longrightarrow>
      \<not> l"
    by (auto simp: lookup_def home_fs_def split: if_splits)
  have hl: "lookup home_fs [''home'', ''music'', ''.cover''] = Some (File True False ''jpg'')"
    by (simp add: lookup_def home_fs_def)
  have "\<exists>ok fs'. RemoveRecursive [''home''] (Suc 0) (Relative ''music'' []) home_fs = Some (ok, fs') \<and>
         (\<forall>c h b. lookup home_fs (location [''home''] (Relative ''music'' []) @ [c]) = Some (File h False b) \<longrightarrow>
            lookup fs' (location [''home''] (Relative ''music'' []) @ [c]) = None \<and>
            (Remove (location [''home''] (Relative ''music'' []) @ [c]), True) \<in> set (calls fs'))"
    by (rule hidden_children_are_removed_but_not_copied
      [where fs = home_fs and path = "Relative ''music'' []" and cwd = "[''home'']" and depth = 0
         and ?fs1.0 = home_fs,
       THEN conjunct2, THEN conjunct2, THEN conjunct2, THEN conjunct1, THEN mp])
      (intro conjI hd hf hu)
  then obtain ok' h' where hr: "RemoveRecursive [''home''] (Suc 0) (Relative ''music'' []) home_fs = Some (ok', h')"
    and hg: "\<forall>c h b. lookup home_fs (location [''home''] (Relative ''music'' []) @ [c]) = Some (File h False b) \<longrightarrow>
            lookup h' (location [''home''] (Relative ''music'' []) @ [c]) = None \<and>
            (Remove (location [''home''] (Relative ''music'' []) @ [c]), True) \<in> set (calls h')" by blast
  from hg [rule_format, of "''.cover''" True "''jpg''"] hl
  have "lookup h' [''home'', ''music'', ''.cover''] = None" by simp
  with hr have 9: "lookup (snd (the (RemoveRecursive [''home''] 1 (Relative ''music'' []) home_fs)))
     [''home'', ''music'', ''.cover''] = None" by simp
  show ?thesis
    by (intro conjI d u 0 ok_r l1' 1 [unfolded r_def] ok_t l2' 2 [unfolded t_def] hl 9 ok_c
        4 [unfolded c_def] 3 [unfolded c_def] 7 8)
qed



text \<open>
  Claim C7. When \<open>RemoveRecursive\<close> (or \<open>MoveToTrashRecursive\<close> from Qt 5.15 on)
  returns true, the calls it made are exactly \<open>removal_order\<close> of the directory: first,
  for each child directory, all the calls of that directory's own walk, then one call for
  each file, then one \<open>rmdir\<close>; every one of these calls succeeded. With a depth above
  the length of the longest path the functions return.

  For an absolute path name the \<open>rmdir\<close> is that of the directory, as the claim says:
  after a true result neither the directory nor any entry directly in it exists, and the
  result is true whenever the path is a directory and nothing at or below it is locked.

  For a relative path name the \<open>rmdir\<close> is not that of the directory but of
  \<open>path/path\<close>, since \<open>dir.rmdir(path)\<close> resolves \<open>path\<close> against \<open>dir\<close>,
  which is \<open>QDir(path)\<close> already. Where every entry lies in a directory, the functions
  then return false, whatever is locked or not, and the directory is still there.
\<close>

theorem children_first_then_files_then_the_directory:
  "(RemoveRecursive cwd depth path fs = Some (True, fs') \<longrightarrow>
      calls fs' = calls fs @ removal_order Remove (rmdir_target cwd path) fs (location cwd path)) \<and>
   (QT_VERSION_CHECK 5 15 0 \<le> QT_VERSION \<and>
    MoveToTrashRecursive QT_VERSION cwd depth path fs = Some (True, fs') \<longrightarrow>
      calls fs' = calls fs @ removal_order MoveToTrash (rmdir_target cwd path) fs (location cwd path)) \<and>
   removal_order mk tgt fs p =
     concat (map (\<lambda>child. removal_order mk tgt fs (p @ [child]))
               (entryList fs p [NoDotAndDotDot, Dirs, Hidden])) @
     map (\<lambda>child. (mk (p @ [child]), True)) (entryList fs p [NoDotAndDotDot, Files, Hidden]) @
     [(Rmdir (tgt p), True)] \<and>
   (\<forall>c \<in> set (removal_order mk tgt fs p). snd c) \<and>
   rmdir_target cwd path (location cwd path) = location cwd (QDir_filePath path path) \<and>
   (\<exists>ok fs'. RemoveRecursive cwd (Suc (height fs)) path fs = Some (ok, fs')) \<and>
   (QT_VERSION_CHECK 5 15 0 \<le> QT_VERSION \<longrightarrow>
      (\<exists>ok fs'. MoveToTrashRecursive QT_VERSION cwd (Suc (height fs)) path fs = Some (ok, fs'))) \<and>
   (RemoveRecursive cwd depth (Absolute ns) fs = Some (True, fs') \<longrightarrow>
      lookup fs' ns = None \<and> (\<forall>child. lookup fs' (ns @ [child]) = None)) \<and>
   (QT_VERSION_CHECK 5 15 0 \<le> QT_VERSION \<and>
    MoveToTrashRecursive QT_VERSION cwd depth (Absolute ns) fs = Some (True, fs') \<longrightarrow>
      lookup fs' ns = None \<and> (\<forall>child. lookup fs' (ns @ [child]) = None)) \<and>
   (isDir fs ns \<and> unlocked fs ns \<longrightarrow>
      (\<exists>fs'. RemoveRecursive cwd (Suc (height fs)) (Absolute ns) fs = Some (True, fs')) \<and>
      (QT_VERSION_CHECK 5 15 0 \<le> QT_VERSION \<longrightarrow>
         (\<exists>fs'. MoveToTrashRecursive QT_VERSION cwd (Suc (height fs)) (Absolute ns) fs = Some (True, fs')))) \<and>
   (closed fs \<longrightarrow>
      (\<exists>fs'. RemoveRecursive cwd (Suc (height fs)) (Relative n ns) fs = Some (False, fs') \<and>
         lookup fs' (cwd @ n # ns) = lookup fs (cwd @ n # ns)) \<and>
      (QT_VERSION_CHECK 5 15 0 \<le> QT_VERSION \<longrightarrow>
         (\<exists>fs'. MoveToTrashRecursive QT_VERSION cwd (Suc (height fs)) (Relative n ns) fs = Some (False, fs') \<and>
            lookup fs' (cwd @ n # ns) = lookup fs (cwd @ n # ns))))"
proof (intro conjI impI allI ballI)
  assume "RemoveRecursive cwd depth path fs = Some (True, fs')"
  then have "walk QFile_remove (rmdir_target cwd path) depth (location cwd path) fs = Some (True, fs')"
    by (simp only: RemoveRecursive_walk)
  from walk_calls [OF QFile_remove_deletes below_rmdir_target this]
  show "calls fs' = calls fs @ removal_order Remove (rmdir_target cwd path) fs (location cwd path)" .
next
  assume "QT_VERSION_CHECK 5 15 0 \<le> QT_VERSION \<and>
    MoveToTrashRecursive QT_VERSION cwd depth path fs = Some (True, fs')"
  then have v: "QT_VERSION_CHECK 5 15 0 \<le> QT_VERSION"
    and m: "MoveToTrashRecursive QT_VERSION cwd depth path fs = Some (True, fs')" by simp_all
  from m have "walk QFile_moveToTrash (rmdir_target cwd path) depth (location cwd path) fs = Some (True, fs')"
    by (simp only: MoveToTrashRecursive_walk [OF v])
  from walk_calls [OF QFile_moveToTrash_deletes below_rmdir_target this]
  show "calls fs' = calls fs @ removal_order MoveToTrash (rmdir_target cwd path) fs (location cwd path)" .
next
  show "removal_order mk tgt fs p =
     concat (map (\<lambda>child. removal_order mk tgt fs (p @ [child]))
               (entryList fs p [NoDotAndDotDot, Dirs, Hidden])) @
     map (\<lambda>child. (mk (p @ [child]), True)) (entryList fs p [NoDotAndDotDot, Files, Hidden]) @
     [(Rmdir (tgt p), True)]"
    by (rule removal_order.simps)
next
  fix c assume "c \<in> set (removal_order mk tgt fs p)"
  then show "snd c" by (rule removal_order_all_True)
next
  show "rmdir_target cwd path (location cwd path) = location cwd (QDir_filePath path path)"
    by (rule location_filePath [symmetric])
next
  from walk_terminates [OF QFile_remove_deletes below_rmdir_target]
  show "\<exists>ok fs'. RemoveRecursive cwd (Suc (height fs)) path fs = Some (ok, fs')"
    by (simp only: RemoveRecursive_walk)
next
  assume v: "QT_VERSION_CHECK 5 15 0 \<le> QT_VERSION"
  from walk_terminates [OF QFile_moveToTrash_deletes below_rmdir_target]
  show "\<exists>ok fs'. MoveToTrashRecursive QT_VERSION cwd (Suc (height fs)) path fs = Some (ok, fs')"
    by (simp only: MoveToTrashRecursive_walk [OF v])
next
  assume "RemoveRecursive cwd depth (Absolute ns) fs = Some (True, fs')"
  then have w: "walk QFile_remove (\<lambda>p. p) depth ns fs = Some (True, fs')"
    by (simp add: RemoveRecursive_walk)
  from walk_success(2) [OF QFile_remove_deletes w] show "lookup fs' ns = None" .
  from walk_success(3) [OF QFile_remove_deletes w]
  show "lookup fs' (ns @ [child]) = None" for child .
next
  assume "QT_VERSION_CHECK 5 15 0 \<le> QT_VERSION \<and>
    MoveToTrashRecursive QT_VERSION cwd depth (Absolute ns) fs = Some (True, fs')"
  then have v: "QT_VERSION_CHECK 5 15 0 \<le> QT_VERSION"
    and m: "MoveToTrashRecursive QT_VERSION cwd depth (Absolute ns) fs = Some (True, fs')" by simp_all
  from m have w: "walk QFile_moveToTrash (\<lambda>p. p) depth ns fs = Some (True, fs')"
    by (simp add: MoveToTrashRecursive_walk [OF v])
  from walk_success(2) [OF QFile_moveToTrash_deletes w] show "lookup fs' ns = None" .
  from walk_success(3) [OF QFile_moveToTrash_deletes w]
  show "lookup fs' (ns @ [child]) = None" for child .
next
  assume a: "isDir fs ns \<and> unlocked fs ns"
  then have d: "isDir fs ns" and u: "unlocked fs ns" by simp_all
  from walk_succeeds_unlocked [OF QFile_remove_deletes d u]
  show "\<exists>fs'. RemoveRecursive cwd (Suc (height fs)) (Absolute ns) fs = Some (True, fs')"
    by (simp only: RemoveRecursive_walk rmdir_target_Absolute location.simps)
  assume v: "QT_VERSION_CHECK 5 15 0 \<le> QT_VERSION"
  from walk_succeeds_unlocked [OF QFile_moveToTrash_deletes d u]
  show "\<exists>fs'. MoveToTrashRecursive QT_VERSION cwd (Suc (height fs)) (Absolute ns) fs = Some (True, fs')"
    by (simp only: MoveToTrashRecursive_walk [OF v] rmdir_target_Absolute location.simps)
next
  assume c: "closed fs"
  from walk_relative [OF QFile_remove_deletes c]
  show "\<exists>fs'. RemoveRecursive cwd (Suc (height fs)) (Relative n ns) fs = Some (False, fs') \<and>
         lookup fs' (cwd @ n # ns) = lookup fs (cwd @ n # ns)"
    by (simp only: RemoveRecursive_walk location.simps)
  assume v: "QT_VERSION_CHECK 5 15 0 \<le> QT_VERSION"
  from walk_relative [OF QFile_moveToTrash_deletes c]
  show "\<exists>fs'. MoveToTrashRecursive QT_VERSION cwd (Suc (height fs)) (Relative n ns) fs = Some (False, fs') \<and>
         lookup fs' (cwd @ n # ns) = lookup fs (cwd @ n # ns)"
    by (simp only: MoveToTrashRecursive_walk [OF v] location.simps)
qed

text \<open>
  The theorem at the absolute path name \<open>/music\<close>, with the seven calls of each walk
  written out, and at the relative path name \<open>music\<close> in \<open>/home\<close>: both files are
  removed, the \<open>rmdir\<close> is that of \<open>/home/music/music\<close> and fails, the result is
  false and \<open>/home/music\<close> is still a directory.
\<close>

theorem children_first_then_files_then_the_directory_witness:
  "map_option fst (RemoveRecursive [] 3 (Absolute [''music'']) example_fs) = Some True \<and>
   calls (snd (the (RemoveRecursive [] 3 (Absolute [''music'']) example_fs))) =
     removal_order Remove (rmdir_target [] (Absolute [''music''])) example_fs [''music''] \<and>
   calls (snd (the (RemoveRecursive [] 3 (Absolute [''music'']) example_fs))) =
     [(Remove [''music'', ''.cache'', ''c.tmp''], True), (Rmdir [''music'', ''.cache''], True),
      (Remove [''music'', ''live'', ''b.mp3''], True), (Rmdir [''music'', ''live''], True),
      (Remove [''music'', ''.cover''], True), (Remove [''music'', ''a.mp3''], True),
      (Rmdir [''music''], True)] \<and>
   lookup (snd (the (RemoveRecursive [] 3 (Absolute [''music'']) example_fs))) [''music''] = None \<and>
   QT_VERSION_CHECK 5 15 0 \<le> QT_VERSION_CHECK 6 2 0 \<and>
   map_option fst (MoveToTrashRecursive (QT_VERSION_CHECK 6 2 0) [] 3 (Absolute [''music'']) example_fs) =
     Some True \<and>
   calls (snd (the (MoveToTrashRecursive (QT_VERSION_CHECK 6 2 0) [] 3 (Absolute [''music'']) example_fs))) =
     removal_order MoveToTrash (rmdir_target [] (Absolute [''music''])) example_fs [''music''] \<and>
   calls (snd (the (MoveToTrashRecursive (QT_VERSION_CHECK 6 2 0) [] 3 (Absolute [''music'']) example_fs))) =
     [(MoveToTrash [''music'', ''.cache'', ''c.tmp''], True), (Rmdir [''music'', ''.cache''], True),
      (MoveToTrash [''music'', ''live'', ''b.mp3''], True), (Rmdir [''music'', ''live''], True),
      (MoveToTrash [''music'', ''.cover''], True), (MoveToTrash [''music'', ''a.mp3''], True),
      (Rmdir [''music''], True)] \<and>
   closed home_fs \<and> unlocked home_fs [''home'', ''music''] \<and>
   map_option fst (RemoveRecursive [''home''] (Suc (height home_fs)) (Relative ''music'' []) home_fs) =
     Some False \<and>
   lookup (snd (the (RemoveRecursive [''home''] (Suc (height home_fs)) (Relative ''music'' []) home_fs)))
     [''home'', ''music''] = Some (Directory False False) \<and>
   calls (snd (the (RemoveRecursive [''home''] 1 (Relative ''music'' []) home_fs))) =
     [(Remove [''home'', ''music'', ''.cover''], True), (Remove [''home'', ''music'', ''a.mp3''], True),
      (Rmdir [''home'', ''music'', ''music''], False)]"
proof -
  define r where "r = snd (the (RemoveRecursive [] 3 (Absolute [''music'']) example_fs))"
  define t where "t = snd (the (MoveToTrashRecursive (QT_VERSION_CHECK 6 2 0) [] 3 (Absolute [''music''])
                               example_fs))"
  have ok_r: "map_option fst (RemoveRecursive [] 3 (Absolute [''music'']) example_fs) = Some True"
    by code_simp
  have ok_t: "map_option fst (MoveToTrashRecursive (QT_VERSION_CHECK 6 2 0) [] 3 (Absolute [''music''])
      example_fs) = Some True"
    by code_simp
  have run_r: "RemoveRecursive [] 3 (Absolute [''music'']) example_fs = Some (True, r)"
    unfolding r_def using ok_r by (rule run_the)
  have run_t: "MoveToTrashRecursive (QT_VERSION_CHECK 6 2 0) [] 3 (Absolute [''music'']) example_fs =
      Some (True, t)"
    unfolding t_def using ok_t by (rule run_the)
  have v: "QT_VERSION_CHECK 5 15 0 \<le> QT_VERSION_CHECK 6 2 0" by (simp add: QT_VERSION_CHECK_def)
  have c0: "calls example_fs = []" by (simp add: example_fs_def)
  have e1: "calls r =
     [(Remove [''music'', ''.cache'', ''c.tmp''], True), (Rmdir [''music'', ''.cache''], True),
      (Remove [''music'', ''live'', ''b.mp3''], True), (Rmdir [''music'', ''live''], True),
      (Remove [''music'', ''.cover''], True), (Remove [''music'', ''a.mp3''], True),
      (Rmdir [''music''], True)]" unfolding r_def by code_simp
  have e2: "calls t =
     [(MoveToTrash [''music'', ''.cache'', ''c.tmp''], True), (Rmdir [''music'', ''.cache''], True),
      (MoveToTrash [''music'', ''live'', ''b.mp3''], True), (Rmdir [''music'', ''live''], True),
      (MoveToTrash [''music'', ''.cover''], True), (MoveToTrash [''music'', ''a.mp3''], True),
      (Rmdir [''music''], True)]" unfolding t_def by code_simp
  have "calls r = calls example_fs @
      removal_order Remove (rmdir_target [] (Absolute [''music''])) example_fs
        (location [] (Absolute [''music'']))"
    by (rule children_first_then_files_then_the_directory
      [where depth = 3 and path = "Absolute [''music'']" and cwd = "[]" and fs = example_fs
        and fs' = r, THEN conjunct1, THEN mp]) (rule run_r)
  then have a1: "calls r =
      removal_order Remove (rmdir_target [] (Absolute [''music''])) example_fs [''music'']"
    by (simp only: c0 append_Nil location.simps)
  have "lookup r [''music''] = None \<and> (\<forall>child. lookup r ([''music''] @ [child]) = None)"
    by (rule children_first_then_files_then_the_directory
      [where depth = 3 and ns = "[''music'']" and cwd = "[]" and fs = example_fs and fs' = r,
       THEN conjunct2, THEN conjunct2, THEN conjunct2, THEN conjunct2, THEN conjunct2, THEN conjunct2,
       THEN conjunct2, THEN conjunct1, THEN mp]) (rule run_r)
  then have b1: "lookup r [''music''] = None" by (rule conjunct1)
  have "calls t = calls example_fs @
      removal_order MoveToTrash (rmdir_target [] (Absolute [''music''])) example_fs
        (location [] (Absolute [''music'']))"
    by (rule children_first_then_files_then_the_directory
      [where depth = 3 and path = "Absolute [''music'']" and cwd = "[]" and fs = example_fs and fs' = t
         and QT_VERSION = "QT_VERSION_CHECK 6 2 0", THEN conjunct2, THEN conjunct1, THEN mp])
      (intro conjI v run_t)
  then have 2: "calls t =
      removal_order MoveToTrash (rmdir_target [] (Absolute [''music''])) example_fs [''music'']"
    by (simp only: c0 append_Nil location.simps)
  \<comment> \<open>the relative path name\<close>
  have hc: "closed home_fs" by code_simp
  have hu: "unlocked home_fs [''home'', ''music'']" by (simp add: unlocked_def home_fs_def)
  have "\<exists>fs'. RemoveRecursive [''home''] (Suc (height home_fs)) (Relative ''music'' []) home_fs =
            Some (False, fs') \<and>
          lookup fs' ([''home''] @ ''music'' # []) = lookup home_fs ([''home''] @ ''music'' # [])"
    by (rule children_first_then_files_then_the_directory
      [where fs = home_fs and cwd = "[''home'']" and n = "''music''" and ns = "[]",
       THEN conjunct2, THEN conjunct2, THEN conjunct2, THEN conjunct2, THEN conjunct2, THEN conjunct2,
       THEN conjunct2, THEN conjunct2, THEN conjunct2, THEN conjunct2, THEN mp, THEN conjunct1])
      (rule hc)
  then obtain h' where hr: "RemoveRecursive [''home''] (Suc (height home_fs)) (Relative ''music'' []) home_fs =
            Some (False, h')"
    and hk: "lookup h' ([''home''] @ ''music'' # []) = lookup home_fs ([''home''] @ ''music'' # [])" by blast
  from hr have h1: "map_option fst (RemoveRecursive [''home''] (Suc (height home_fs)) (Relative ''music'' [])
      home_fs) = Some False" by simp
  have "lookup home_fs [''home'', ''music''] = Some (Directory False False)"
    by (simp add: lookup_def home_fs_def)
  with hk hr have h2: "lookup (snd (the (RemoveRecursive [''home''] (Suc (height home_fs))
      (Relative ''music'' []) home_fs))) [''home'', ''music''] = Some (Directory False False)" by simp
  have h3: "calls (snd (the (RemoveRecursive [''home''] 1 (Relative ''music'' []) home_fs))) =
     [(Remove [''home'', ''music'', ''.cover''], True), (Remove [''home'', ''music'', ''a.mp3''], True),
      (Rmdir [''home'', ''music'', ''music''], False)]" by code_simp
  show ?thesis
    by (intro conjI ok_r ok_t v a1 [unfolded r_def] b1 [unfolded r_def] e1 [unfolded r_def]
        2 [unfolded t_def] e2 [unfolded t_def] hc hu h1 h2 h3)
qed



text \<open>
  Claim C8. In each of the three functions, when the walk of a child directory returns
  false, the function returns false with the very state that this walk left: no later child
  directory, no file and no \<open>rmdir\<close> is touched. When the call on a file fails after
  all child directories went well, the function returns false with the state left by that
  call, which is the state before it with one failed call recorded: what was removed or
  copied before stays so, and nothing else happens.
\<close>

theorem first_failure_ends_the_call:
  "(entryList fs (location cwd path) [NoDotAndDotDot, Dirs, Hidden] = before @ child # after \<and>
    for_each (\<lambda>child. RemoveRecursive cwd depth (slash path child)) before fs = Some (True, fs1) \<and>
    RemoveRecursive cwd depth (slash path child) fs1 = Some (False, fs2) \<longrightarrow>
      RemoveRecursive cwd (Suc depth) path fs = Some (False, fs2)) \<and>
   (for_each (\<lambda>child. RemoveRecursive cwd depth (slash path child))
      (entryList fs (location cwd path) [NoDotAndDotDot, Dirs, Hidden]) fs = Some (True, fs1) \<and>
    entryList fs1 (location cwd path) [NoDotAndDotDot, Files, Hidden] = before @ child # after \<and>
    for_each (\<lambda>child fs'. Some (QFile_remove (location cwd (slash path child)) fs')) before fs1 =
      Some (True, fs2) \<and>
    QFile_remove (location cwd (slash path child)) fs2 = (False, fs3) \<longrightarrow>
      RemoveRecursive cwd (Suc depth) path fs = Some (False, fs3) \<and>
      entries fs3 = entries fs2 \<and>
      calls fs3 = calls fs2 @ [(Remove (location cwd (slash path child)), False)]) \<and>
   (QT_VERSION_CHECK 5 15 0 \<le> QT_VERSION \<and>
    entryList fs (location cwd path) [NoDotAndDotDot, Dirs, Hidden] = before @ child # after \<and>
    for_each (\<lambda>child. MoveToTrashRecursive QT_VERSION cwd depth (slash path child)) before fs =
      Some (True, fs1) \<and>
    MoveToTrashRecursive QT_VERSION cwd depth (slash path child) fs1 = Some (False, fs2) \<longrightarrow>
      MoveToTrashRecursive QT_VERSION cwd (Suc depth) path fs = Some (False, fs2)) \<and>
   (QT_VERSION_CHECK 5 15 0 \<le> QT_VERSION \<and>
    for_each (\<lambda>child. MoveToTrashRecursive QT_VERSION cwd depth (slash path child))
      (entryList fs (location cwd path) [NoDotAndDotDot, Dirs, Hidden]) fs = Some (True, fs1) \<and>
    entryList fs1 (location cwd path) [NoDotAndDotDot, Files, Hidden] = before @ child # after \<and>
    for_each (\<lambda>child fs'. Some (QFile_moveToTrash (location cwd (slash path child)) fs')) before fs1 =
      Some (True, fs2) \<and>
    QFile_moveToTrash (location cwd (slash path child)) fs2 = (False, fs3) \<longrightarrow>
      MoveToTrashRecursive QT_VERSION cwd (Suc depth) path fs = Some (False, fs3) \<and>
      entries fs3 = entries fs2 \<and> trash fs3 = trash fs2 \<and>
      calls fs3 = calls fs2 @ [(MoveToTrash (location cwd (slash path child)), False)]) \<and>
   (entryList (snd (QDir_mkpath (location cwd (extend destination (section_last source))) fs))
      (location cwd source) [NoDotAndDotDot, Dirs] = before @ child # after \<and>
    for_each (\<lambda>child. CopyRecursive cwd depth (slash source child) (extend destination (section_last source)))
      before (snd (QDir_mkpath (location cwd (extend destination (section_last source))) fs)) =
      Some (True, fs1) \<and>
    CopyRecursive cwd depth (slash source child) (extend destination (section_last source)) fs1 =
      Some (False, fs2) \<longrightarrow>
      CopyRecursive cwd (Suc depth) source destination fs = Some (False, fs2)) \<and>
   (for_each (\<lambda>child. CopyRecursive cwd depth (slash source child) (extend destination (section_last source)))
      (entryList (snd (QDir_mkpath (location cwd (extend destination (section_last source))) fs))
         (location cwd source) [NoDotAndDotDot, Dirs])
      (snd (QDir_mkpath (location cwd (extend destination (section_last source))) fs)) = Some (True, fs1) \<and>
    entryList fs1 (location cwd source) [NoDotAndDotDot, Files] = before @ child # after \<and>
    for_each (\<lambda>child fs'. Some (QFile_copy (location cwd (slash source child))
                (location cwd (slash (extend destination (section_last source)) child)) fs'))
      before fs1 = Some (True, fs2) \<and>
    QFile_copy (location cwd (slash source child))
      (location cwd (slash (extend destination (section_last source)) child)) fs2 = (False, fs3) \<longrightarrow>
      CopyRecursive cwd (Suc depth) source destination fs = Some (False, fs3) \<and>
      entries fs3 = entries fs2 \<and>
      calls fs3 = calls fs2 @
        [(Copy (location cwd (slash source child))
            (location cwd (slash (extend destination (section_last source)) child)), False)])"
proof (intro conjI impI)
  assume "entryList fs (location cwd path) [NoDotAndDotDot, Dirs, Hidden] = before @ child # after \<and>
    for_each (\<lambda>child. RemoveRecursive cwd depth (slash path child)) before fs = Some (True, fs1) \<and>
    RemoveRecursive cwd depth (slash path child) fs1 = Some (False, fs2)"
  then show "RemoveRecursive cwd (Suc depth) path fs = Some (False, fs2)"
    by (simp add: for_each_stops [where body = "\<lambda>child. RemoveRecursive cwd depth (slash path child)"])
next
  assume a: "for_each (\<lambda>child. RemoveRecursive cwd depth (slash path child))
      (entryList fs (location cwd path) [NoDotAndDotDot, Dirs, Hidden]) fs = Some (True, fs1) \<and>
    entryList fs1 (location cwd path) [NoDotAndDotDot, Files, Hidden] = before @ child # after \<and>
    for_each (\<lambda>child fs'. Some (QFile_remove (location cwd (slash path child)) fs')) before fs1 =
      Some (True, fs2) \<and>
    QFile_remove (location cwd (slash path child)) fs2 = (False, fs3)"
  then show "RemoveRecursive cwd (Suc depth) path fs = Some (False, fs3)"
    by (simp add: for_each_stops
        [where body = "\<lambda>child fs'. Some (QFile_remove (location cwd (slash path child)) fs')"]
        del: location_slash)
  from a QFile_remove_failed show "entries fs3 = entries fs2"
    "calls fs3 = calls fs2 @ [(Remove (location cwd (slash path child)), False)]" by blast+
next
  assume "QT_VERSION_CHECK 5 15 0 \<le> QT_VERSION \<and>
    entryList fs (location cwd path) [NoDotAndDotDot, Dirs, Hidden] = before @ child # after \<and>
    for_each (\<lambda>child. MoveToTrashRecursive QT_VERSION cwd depth (slash path child)) before fs =
      Some (True, fs1) \<and>
    MoveToTrashRecursive QT_VERSION cwd depth (slash path child) fs1 = Some (False, fs2)"
  then show "MoveToTrashRecursive QT_VERSION cwd (Suc depth) path fs = Some (False, fs2)"
    by (simp add: for_each_stops
        [where body = "\<lambda>child. MoveToTrashRecursive QT_VERSION cwd depth (slash path child)"])
next
  assume a: "QT_VERSION_CHECK 5 15 0 \<le> QT_VERSION \<and>
    for_each (\<lambda>child. MoveToTrashRecursive QT_VERSION cwd depth (slash path child))
      (entryList fs (location cwd path) [NoDotAndDotDot, Dirs, Hidden]) fs = Some (True, fs1) \<and>
    entryList fs1 (location cwd path) [NoDotAndDotDot, Files, Hidden] = before @ child # after \<and>
    for_each (\<lambda>child fs'. Some (QFile_moveToTrash (location cwd (slash path child)) fs')) before fs1 =
      Some (True, fs2) \<and>
    QFile_moveToTrash (location cwd (slash path child)) fs2 = (False, fs3)"
  then show "MoveToTrashRecursive QT_VERSION cwd (Suc depth) path fs = Some (False, fs3)"
    by (simp add: for_each_stops
        [where body = "\<lambda>child fs'. Some (QFile_moveToTrash (location cwd (slash path child)) fs')"]
        del: location_slash)
  from a QFile_moveToTrash_failed show "entries fs3 = entries fs2" "trash fs3 = trash fs2"
    "calls fs3 = calls fs2 @ [(MoveToTrash (location cwd (slash path child)), False)]" by blast+
next
  assume "entryList (snd (QDir_mkpath (location cwd (extend destination (section_last source))) fs))
      (location cwd source) [NoDotAndDotDot, Dirs] = before @ child # after \<and>
    for_each (\<lambda>child. CopyRecursive cwd depth (slash source child) (extend destination (section_last source)))
      before (snd (QDir_mkpath (location cwd (extend destination (section_last source))) fs)) =
      Some (True, fs1) \<and>
    CopyRecursive cwd depth (slash source child) (extend destination (section_last source)) fs1 =
      Some (False, fs2)"
  then show "CopyRecursive cwd (Suc depth) source destination fs = Some (False, fs2)"
    by (simp add: Let_def for_each_stops
        [where body = "\<lambda>child. CopyRecursive cwd depth (slash source child)
                         (extend destination (section_last source))"]
        del: location_slash location_extend)
next
  assume a: "for_each (\<lambda>child. CopyRecursive cwd depth (slash source child) (extend destination (section_last source)))
      (entryList (snd (QDir_mkpath (location cwd (extend destination (section_last source))) fs))
         (location cwd source) [NoDotAndDotDot, Dirs])
      (snd (QDir_mkpath (location cwd (extend destination (section_last source))) fs)) = Some (True, fs1) \<and>
    entryList fs1 (location cwd source) [NoDotAndDotDot, Files] = before @ child # after \<and>
    for_each (\<lambda>child fs'. Some (QFile_copy (location cwd (slash source child))
                (location cwd (slash (extend destination (section_last source)) child)) fs'))
      before fs1 = Some (True, fs2) \<and>
    QFile_copy (location cwd (slash source child))
      (location cwd (slash (extend destination (section_last source)) child)) fs2 = (False, fs3)"
  then show "CopyRecursive cwd (Suc depth) source destination fs = Some (False, fs3)"
    by (simp add: Let_def for_each_stops
        [where body = "\<lambda>child fs'. Some (QFile_copy (location cwd (slash source child))
                (location cwd (slash (extend destination (section_last source)) child)) fs')"]
        del: location_slash location_extend)
  from a QFile_copy_failed show "entries fs3 = entries fs2"
    "calls fs3 = calls fs2 @
        [(Copy (location cwd (slash source child))
            (location cwd (slash (extend destination (section_last source)) child)), False)]" by blast+
qed



text \<open>
  The theorem at \<open>/music\<close>. Removal: the hidden directory is removed, the locked file in
  \<open>live\<close> stops the walk, and the files of \<open>music\<close> are never touched. Copy: the
  first file is copied, the locked one fails, and the copy of the first stays.
\<close>

theorem first_failure_ends_the_call_witness:
  "entryList locked_fs (location [] (Absolute [''music''])) [NoDotAndDotDot, Dirs, Hidden] =
     [''.cache''] @ ''live'' # [] \<and>
   map_option fst (for_each (\<lambda>child. RemoveRecursive [] 2 (slash (Absolute [''music'']) child))
     [''.cache''] locked_fs) = Some True \<and>
   map_option fst (RemoveRecursive [] 3 (Absolute [''music'']) locked_fs) = Some False \<and>
   lookup (snd (the (RemoveRecursive [] 3 (Absolute [''music'']) locked_fs))) [''music'', ''.cache''] = None \<and>
   lookup (snd (the (RemoveRecursive [] 3 (Absolute [''music'']) locked_fs))) [''music'', ''a.mp3''] =
     Some (File False False ''aaa'') \<and>
   calls (snd (the (RemoveRecursive [] 3 (Absolute [''music'']) locked_fs))) =
     [(Remove [''music'', ''.cache'', ''c.tmp''], True), (Rmdir [''music'', ''.cache''], True),
      (Remove [''music'', ''live'', ''b.mp3''], False)] \<and>
   map_option fst (CopyRecursive [] 3 (Absolute [''music'']) (Absolute [''backup'']) busy_fs) = Some False \<and>
   lookup (snd (the (CopyRecursive [] 3 (Absolute [''music'']) (Absolute [''backup'']) busy_fs)))
     [''backup'', ''music'', ''a.mp3''] = Some (File False False ''aaa'') \<and>
   lookup (snd (the (CopyRecursive [] 3 (Absolute [''music'']) (Absolute [''backup'']) busy_fs)))
     [''backup'', ''music'', ''z.mp3''] = None \<and>
   calls (snd (the (CopyRecursive [] 3 (Absolute [''music'']) (Absolute [''backup'']) busy_fs))) =
     [(Mkpath [''backup'', ''music''], True), (Mkpath [''backup'', ''music'', ''live''], True),
      (Copy [''music'', ''live'', ''b.mp3''] [''backup'', ''music'', ''live'', ''b.mp3''], True),
      (Copy [''music'', ''a.mp3''] [''backup'', ''music'', ''a.mp3''], True),
      (Copy [''music'', ''z.mp3''] [''backup'', ''music'', ''z.mp3''], False)]"
proof -
  let ?music = "Absolute [''music'']" and ?backup = "Absolute [''backup'']"
  \<comment> \<open>remove: the second child directory fails\<close>
  define f1 where "f1 = snd (the (for_each (\<lambda>child. RemoveRecursive [] 2 (slash ?music child))
      [''.cache''] locked_fs))"
  define f2 where "f2 = snd (the (RemoveRecursive [] 2 (slash ?music ''live'') f1))"
  have d: "entryList locked_fs (location [] ?music) [NoDotAndDotDot, Dirs, Hidden] =
      [''.cache''] @ ''live'' # []"
    by code_simp
  have ok1: "map_option fst (for_each (\<lambda>child. RemoveRecursive [] 2 (slash ?music child))
      [''.cache''] locked_fs) = Some True" by code_simp
  have b1: "for_each (\<lambda>child. RemoveRecursive [] 2 (slash ?music child)) [''.cache''] locked_fs =
      Some (True, f1)"
    unfolding f1_def using ok1 by (rule run_the)
  have "map_option fst (RemoveRecursive [] 2 (slash ?music ''live'') f1) = Some False"
    unfolding f1_def by code_simp
  then have b2: "RemoveRecursive [] 2 (slash ?music ''live'') f1 = Some (False, f2)"
    unfolding f2_def by (rule run_the)
  have r: "RemoveRecursive [] (Suc 2) ?music locked_fs = Some (False, f2)"
    by (rule first_failure_ends_the_call
      [where fs = locked_fs and path = ?music and cwd = "[]" and before = "[''.cache'']"
         and child = "''live''" and after = "[]" and depth = 2 and ?fs1.0 = f1 and ?fs2.0 = f2,
       THEN conjunct1, THEN mp])
      (intro conjI d b1 b2)
  have three: "(3::nat) = Suc 2" by simp
  have r1: "map_option fst (RemoveRecursive [] 3 ?music locked_fs) = Some False"
    by (subst three) (simp only: r option.map fst_conv)
  have r2: "lookup (snd (the (RemoveRecursive [] 3 ?music locked_fs))) [''music'', ''.cache''] = None"
    by code_simp
  have r3: "lookup (snd (the (RemoveRecursive [] 3 ?music locked_fs))) [''music'', ''a.mp3''] =
     Some (File False False ''aaa'')" by code_simp
  have r4: "calls (snd (the (RemoveRecursive [] 3 ?music locked_fs))) =
     [(Remove [''music'', ''.cache'', ''c.tmp''], True), (Rmdir [''music'', ''.cache''], True),
      (Remove [''music'', ''live'', ''b.mp3''], False)]" by code_simp
  \<comment> \<open>copy: the second file fails\<close>
  let ?dp = "extend ?backup (section_last ?music)"
  define g0 where "g0 = snd (QDir_mkpath (location [] ?dp) busy_fs)"
  define g1 where "g1 = snd (the (for_each (\<lambda>child. CopyRecursive [] 2 (slash ?music child) ?dp)
      (entryList g0 (location [] ?music) [NoDotAndDotDot, Dirs]) g0))"
  define g2 where "g2 = snd (the (for_each (\<lambda>child fs'. Some (QFile_copy (location [] (slash ?music child))
      (location [] (slash ?dp child)) fs')) [''a.mp3''] g1))"
  define g3 where "g3 = snd (QFile_copy (location [] (slash ?music ''z.mp3''))
      (location [] (slash ?dp ''z.mp3'')) g2)"
  have "map_option fst (for_each (\<lambda>child. CopyRecursive [] 2 (slash ?music child) ?dp)
      (entryList g0 (location [] ?music) [NoDotAndDotDot, Dirs]) g0) = Some True"
    unfolding g0_def by code_simp
  then have c1: "for_each (\<lambda>child. CopyRecursive [] 2 (slash ?music child) ?dp)
      (entryList g0 (location [] ?music) [NoDotAndDotDot, Dirs]) g0 = Some (True, g1)"
    unfolding g1_def by (rule run_the)
  have c2: "entryList g1 (location [] ?music) [NoDotAndDotDot, Files] = [''a.mp3''] @ ''z.mp3'' # []"
    unfolding g1_def g0_def by code_simp
  have "map_option fst (for_each (\<lambda>child fs'. Some (QFile_copy (location [] (slash ?music child))
      (location [] (slash ?dp child)) fs')) [''a.mp3''] g1) = Some True"
    unfolding g1_def g0_def by code_simp
  then have c3: "for_each (\<lambda>child fs'. Some (QFile_copy (location [] (slash ?music child))
      (location [] (slash ?dp child)) fs')) [''a.mp3''] g1 = Some (True, g2)"
    unfolding g2_def by (rule run_the)
  have "fst (QFile_copy (location [] (slash ?music ''z.mp3''))
      (location [] (slash ?dp ''z.mp3'')) g2) = False"
    unfolding g2_def g1_def g0_def by code_simp
  then have c4: "QFile_copy (location [] (slash ?music ''z.mp3''))
      (location [] (slash ?dp ''z.mp3'')) g2 = (False, g3)"
    unfolding g3_def by (rule run_pair)
  have c: "CopyRecursive [] (Suc 2) ?music ?backup busy_fs = Some (False, g3)"
    by (rule first_failure_ends_the_call
      [where fs = busy_fs and source = ?music and destination = ?backup and cwd = "[]"
         and before = "[''a.mp3'']" and child = "''z.mp3''" and after = "[]" and depth = 2
         and ?fs1.0 = g1 and ?fs2.0 = g2 and ?fs3.0 = g3,
       THEN conjunct2, THEN conjunct2, THEN conjunct2, THEN conjunct2, THEN conjunct2,
       THEN mp, THEN conjunct1])
      (intro conjI c1 [unfolded g0_def] c2 c3 c4)
  have s1: "map_option fst (CopyRecursive [] 3 ?music ?backup busy_fs) = Some False"
    by (subst three) (simp only: c option.map fst_conv)
  have s2: "lookup (snd (the (CopyRecursive [] 3 ?music ?backup busy_fs))) [''backup'', ''music'', ''a.mp3''] =
     Some (File False False ''aaa'')" by code_simp
  have s3: "lookup (snd (the (CopyRecursive [] 3 ?music ?backup busy_fs))) [''backup'', ''music'', ''z.mp3''] =
     None" by code_simp
  have s4: "calls (snd (the (CopyRecursive [] 3 ?music ?backup busy_fs))) =
     [(Mkpath [''backup'', ''music''], True), (Mkpath [''backup'', ''music'', ''live''], True),
      (Copy [''music'', ''live'', ''b.mp3''] [''backup'', ''music'', ''live'', ''b.mp3''], True),
      (Copy [''music'', ''a.mp3''] [''backup'', ''music'', ''a.mp3''], True),
      (Copy [''music'', ''z.mp3''] [''backup'', ''music'', ''z.mp3''], False)]" by code_simp
  show ?thesis by (intro conjI d ok1 r1 r2 r3 r4 s1 s2 s3 s4)
qed

text \<open>
  Claim C9. With a Qt older than 5.15, \<open>MoveToTrashRecursive\<close> returns false for every
  path name, current directory and depth, and the filesystem it returns is the one it was
  given: no entry changes, nothing goes to the trash and no Qt call is made.
\<close>

theorem no_trash_before_Qt_5_15:
  "QT_VERSION < QT_VERSION_CHECK 5 15 0 \<Longrightarrow>
     MoveToTrashRecursive QT_VERSION cwd depth path fs = Some (False, fs)"
  by (cases depth) simp_all

text \<open>The theorem at Qt 5.12.8.\<close>

theorem no_trash_before_Qt_5_15_witness:
  "QT_VERSION_CHECK 5 12 8 < QT_VERSION_CHECK 5 15 0 \<and>
   MoveToTrashRecursive (QT_VERSION_CHECK 5 12 8) [] 3 (Absolute [''music'']) example_fs =
     Some (False, example_fs) \<and>
   MoveToTrashRecursive (QT_VERSION_CHECK 5 12 8) [''home''] 0 (Relative ''music'' []) home_fs =
     Some (False, home_fs)"
proof -
  have v: "QT_VERSION_CHECK 5 12 8 < QT_VERSION_CHECK 5 15 0" by (simp add: QT_VERSION_CHECK_def)
  from v no_trash_before_Qt_5_15 [OF v, of "[]" 3 "Absolute [''music'']" example_fs]
    no_trash_before_Qt_5_15 [OF v, of "[''home'']" 0 "Relative ''music'' []" home_fs]
  show ?thesis by simp
qed



text \<open>
  Claim C10. For a path name that resolves to no entry, both lists of children are empty,
  \<open>rmdir\<close> fails, and \<open>RemoveRecursive\<close> returns false, changing no entry. This
  holds for an absolute path name in any filesystem, and for a relative one where every
  entry lies in a directory. After a call on an absolute path name that returned true the
  path does not exist, so a second call on it returns false.
\<close>

theorem missing_path_is_a_failure:
  "(lookup fs (location cwd path) = None \<and> (isAbsolute path \<or> closed fs) \<longrightarrow>
      entryList fs (location cwd path) [NoDotAndDotDot, Dirs, Hidden] = [] \<and>
      entryList fs (location cwd path) [NoDotAndDotDot, Files, Hidden] = [] \<and>
      QDir_rmdir (location cwd (QDir_filePath path path)) fs =
        (False, called (Rmdir (location cwd (QDir_filePath path path))) False fs) \<and>
      RemoveRecursive cwd (Suc depth) path fs =
        Some (False, called (Rmdir (location cwd (QDir_filePath path path))) False fs) \<and>
      entries (called (Rmdir (location cwd (QDir_filePath path path))) False fs) = entries fs) \<and>
   (RemoveRecursive cwd depth (Absolute ns) fs = Some (True, fs') \<longrightarrow>
      lookup fs' ns = None \<and>
      RemoveRecursive cwd (Suc again) (Absolute ns) fs' = Some (False, called (Rmdir ns) False fs'))"
proof (intro conjI impI)
  assume a: "lookup fs (location cwd path) = None \<and> (isAbsolute path \<or> closed fs)"
  then have n: "lookup fs (location cwd path) = None" and c: "isAbsolute path \<or> closed fs" by simp_all
  from n c
  show "RemoveRecursive cwd (Suc depth) path fs =
        Some (False, called (Rmdir (location cwd (QDir_filePath path path))) False fs)"
    by (rule RemoveRecursive_missing)
  from n have "\<not> isDir fs (location cwd path)" by (simp add: isDir_def)
  then show "entryList fs (location cwd path) [NoDotAndDotDot, Dirs, Hidden] = []"
    "entryList fs (location cwd path) [NoDotAndDotDot, Files, Hidden] = []"
    by (simp_all add: entryList_def)
  from missing_rmdir_target [OF n c]
  show "QDir_rmdir (location cwd (QDir_filePath path path)) fs =
        (False, called (Rmdir (location cwd (QDir_filePath path path))) False fs)"
    by (simp add: QDir_rmdir_def)
  show "entries (called (Rmdir (location cwd (QDir_filePath path path))) False fs) = entries fs"
    by simp
next
  assume "RemoveRecursive cwd depth (Absolute ns) fs = Some (True, fs')"
  then have w: "walk QFile_remove (\<lambda>p. p) depth ns fs = Some (True, fs')"
    by (simp add: RemoveRecursive_walk)
  from walk_success(2) [OF QFile_remove_deletes w] show n: "lookup fs' ns = None" .
  from RemoveRecursive_missing [of fs' cwd "Absolute ns" again] n
  show "RemoveRecursive cwd (Suc again) (Absolute ns) fs' = Some (False, called (Rmdir ns) False fs')"
    by simp
qed

text \<open>
  The theorem at the absolute path name \<open>/nothing\<close> and at the relative path name
  \<open>nothing\<close> in \<open>/home\<close>, which never existed, and at \<open>/music\<close> after its
  removal.
\<close>

theorem missing_path_is_a_failure_witness:
  "lookup example_fs [''nothing''] = None \<and>
   RemoveRecursive [] 1 (Absolute [''nothing'']) example_fs =
     Some (False, called (Rmdir [''nothing'']) False example_fs) \<and>
   lookup home_fs [''home'', ''nothing''] = None \<and> closed home_fs \<and>
   RemoveRecursive [''home''] 1 (Relative ''nothing'' []) home_fs =
     Some (False, called (Rmdir [''home'', ''nothing'', ''nothing'']) False home_fs) \<and>
   map_option fst (RemoveRecursive [] 3 (Absolute [''music'']) example_fs) = Some True \<and>
   map_option fst (RemoveRecursive [] 3 (Absolute [''music''])
     (snd (the (RemoveRecursive [] 3 (Absolute [''music'']) example_fs)))) = Some False"
proof -
  define r where "r = snd (the (RemoveRecursive [] 3 (Absolute [''music'']) example_fs))"
  have l: "lookup example_fs [''nothing''] = None" by (simp add: lookup_def example_fs_def)
  have ok_r: "map_option fst (RemoveRecursive [] 3 (Absolute [''music'']) example_fs) = Some True"
    by code_simp
  have run_r: "RemoveRecursive [] 3 (Absolute [''music'']) example_fs = Some (True, r)"
    unfolding r_def using ok_r by (rule run_the)
  have "RemoveRecursive [] (Suc 0) (Absolute [''nothing'']) example_fs =
     Some (False, called (Rmdir (location [] (QDir_filePath (Absolute [''nothing'']) (Absolute [''nothing''])))) False
       example_fs)"
    by (rule missing_path_is_a_failure
      [where fs = example_fs and path = "Absolute [''nothing'']" and cwd = "[]" and depth = 0,
       THEN conjunct1, THEN mp, THEN conjunct2, THEN conjunct2, THEN conjunct2, THEN conjunct1])
      (simp add: l)
  then have 1: "RemoveRecursive [] 1 (Absolute [''nothing'']) example_fs =
     Some (False, called (Rmdir [''nothing'']) False example_fs)"
    by (simp only: One_nat_def QDir_filePath.simps location.simps)
  have hl: "lookup home_fs [''home'', ''nothing''] = None" by (simp add: lookup_def home_fs_def)
  have hc: "closed home_fs" by code_simp
  have "RemoveRecursive [''home''] (Suc 0) (Relative ''nothing'' []) home_fs =
     Some (False, called (Rmdir (location [''home'']
       (QDir_filePath (Relative ''nothing'' []) (Relative ''nothing'' [])))) False home_fs)"
    by (rule missing_path_is_a_failure
      [where fs = home_fs and path = "Relative ''nothing'' []" and cwd = "[''home'']" and depth = 0,
       THEN conjunct1, THEN mp, THEN conjunct2, THEN conjunct2, THEN conjunct2, THEN conjunct1])
      (simp add: hl hc)
  then have 3: "RemoveRecursive [''home''] 1 (Relative ''nothing'' []) home_fs =
     Some (False, called (Rmdir [''home'', ''nothing'', ''nothing'']) False home_fs)"
    by (simp only: One_nat_def QDir_filePath.simps extend.simps location.simps append.simps)
  have three: "(3::nat) = Suc 2" by simp
  have "RemoveRecursive [] (Suc 2) (Absolute [''music'']) r = Some (False, called (Rmdir [''music'']) False r)"
    by (rule missing_path_is_a_failure
      [where fs = example_fs and ns = "[''music'']" and cwd = "[]" and depth = 3 and fs' = r and again = 2,
       THEN conjunct2, THEN mp, THEN conjunct2]) (rule run_r)
  then have 2: "map_option fst (RemoveRecursive [] 3 (Absolute [''music'']) r) = Some False"
    by (simp only: three option.map fst_conv)
  show ?thesis by (intro conjI l 1 hl hc 3 ok_r 2 [unfolded r_def])
qed

end
